theory Spec2Isabelle
  imports Main "HOL-Library.Multiset" "HOL-Library.AList"
begin

section \<open>Board model (server/game-logic.js)\<close>

text \<open>
  The board is a JavaScript array of \<open>ROWS\<close> arrays of \<open>COLS\<close> cells; a cell is
  \<open>null\<close> (\<open>None\<close>) or a tile-type number.  Coordinates are JavaScript numbers used as
  array indices; they are modelled as integers, so that \<open>r - 1\<close> below row 0 is \<open>-1\<close> as in
  the source.
\<close>

abbreviation ROWS :: int where "ROWS \<equiv> 11"
abbreviation COLS :: int where "COLS \<equiv> 18"
abbreviation TYPE_COUNT :: nat where "TYPE_COUNT \<equiv> 33"

type_synonym cell = "nat option"
type_synonym board = "cell list list"

datatype pos = Pos (pos_r: int) (pos_c: int)

definition inRange :: "board \<Rightarrow> int \<Rightarrow> int \<Rightarrow> bool" where
  "inRange b r c \<longleftrightarrow> 0 \<le> r \<and> r < int (length b) \<and> 0 \<le> c \<and> c < int (length (b ! nat r))"

text \<open>
  \<open>board[r][c]\<close> as a read and as a write.  Every access of the source that the theorems
  below speak about lies inside the arrays.  Outside, JavaScript would read \<open>undefined\<close>
  (which \<open>== null\<close> treats like \<open>null\<close>), grow a row, or throw; the model reads \<open>None\<close> and
  leaves the board alone there.
\<close>

definition cellAt :: "board \<Rightarrow> int \<Rightarrow> int \<Rightarrow> cell" where
  "cellAt b r c = (if inRange b r c then b ! nat r ! nat c else None)"

definition setCell :: "board \<Rightarrow> int \<Rightarrow> int \<Rightarrow> cell \<Rightarrow> board" where
  "setCell b r c v = (if inRange b r c then b[nat r := (b ! nat r)[nat c := v]] else b)"

definition inBounds :: "int \<Rightarrow> int \<Rightarrow> bool" where
  "inBounds r c \<longleftrightarrow> r \<ge> 0 \<and> r < ROWS \<and> c \<ge> 0 \<and> c < COLS"

definition wf_board :: "board \<Rightarrow> bool" where
  "wf_board b \<longleftrightarrow> int (length b) = ROWS \<and> (\<forall>row \<in> set b. int (length row) = COLS)"

definition interior :: "pos \<Rightarrow> bool" where
  "interior p \<longleftrightarrow> 1 \<le> pos_r p \<and> pos_r p < ROWS - 1 \<and> 1 \<le> pos_c p \<and> pos_c p < COLS - 1"

definition isBorder :: "int \<Rightarrow> int \<Rightarrow> bool" where
  "isBorder r c \<longleftrightarrow> inBounds r c \<and> (r = 0 \<or> r = ROWS - 1 \<or> c = 0 \<or> c = COLS - 1)"

definition border_null :: "board \<Rightarrow> bool" where
  "border_null b \<longleftrightarrow> (\<forall>r c. isBorder r c \<longrightarrow> cellAt b r c = None)"

section \<open>Collapse engine: level1 .. level7\<close>

definition level1 :: "board \<Rightarrow> pos \<Rightarrow> board" where
  "level1 b p = setCell b (pos_r p) (pos_c p) None"

function level2_loop :: "board \<Rightarrow> int \<Rightarrow> int \<Rightarrow> board" where
  "level2_loop b pc r =
     (if r < ROWS - 1 then
        (if r + 1 < ROWS \<and> cellAt b (r + 1) pc \<noteq> None
         then level2_loop (setCell b r pc (cellAt b (r + 1) pc)) pc (r + 1)
         else setCell b r pc None)
      else b)"
  by pat_completeness auto
termination
  by (relation "measure (\<lambda>(b, pc, r). nat (ROWS - 1 - r))") auto

declare level2_loop.simps [simp del]

definition level2 :: "board \<Rightarrow> pos \<Rightarrow> board" where
  "level2 b p = level2_loop b (pos_c p) (pos_r p)"

function level3_loop :: "board \<Rightarrow> int \<Rightarrow> int \<Rightarrow> board" where
  "level3_loop b pc r =
     (if r > 0 then
        (if r - 1 \<ge> 0 \<and> cellAt b (r - 1) pc \<noteq> None
         then level3_loop (setCell b r pc (cellAt b (r - 1) pc)) pc (r - 1)
         else setCell b r pc None)
      else b)"
  by pat_completeness auto
termination
  by (relation "measure (\<lambda>(b, pc, r). nat r)") auto

declare level3_loop.simps [simp del]

definition level3 :: "board \<Rightarrow> pos \<Rightarrow> board" where
  "level3 b p = level3_loop b (pos_c p) (pos_r p)"

function level4_loop :: "board \<Rightarrow> int \<Rightarrow> int \<Rightarrow> board" where
  "level4_loop b pr c =
     (if c > 0 then
        (if c - 1 \<ge> 0 \<and> cellAt b pr (c - 1) \<noteq> None
         then level4_loop (setCell b pr c (cellAt b pr (c - 1))) pr (c - 1)
         else setCell b pr c None)
      else b)"
  by pat_completeness auto
termination
  by (relation "measure (\<lambda>(b, pr, c). nat c)") auto

declare level4_loop.simps [simp del]

definition level4 :: "board \<Rightarrow> pos \<Rightarrow> board" where
  "level4 b p = level4_loop b (pos_r p) (pos_c p)"

function level5_loop :: "board \<Rightarrow> int \<Rightarrow> int \<Rightarrow> board" where
  "level5_loop b pr c =
     (if c < COLS - 1 then
        (if c + 1 < COLS \<and> cellAt b pr (c + 1) \<noteq> None
         then level5_loop (setCell b pr c (cellAt b pr (c + 1))) pr (c + 1)
         else setCell b pr c None)
      else b)"
  by pat_completeness auto
termination
  by (relation "measure (\<lambda>(b, pr, c). nat (COLS - 1 - c))") auto

declare level5_loop.simps [simp del]

definition level5 :: "board \<Rightarrow> pos \<Rightarrow> board" where
  "level5 b p = level5_loop b (pos_r p) (pos_c p)"

text \<open>Level 6, toward middle row 5: the loop of the branch \<open>p.r < 5\<close> and the one of \<open>p.r > 5\<close>.\<close>

function level6_lo :: "board \<Rightarrow> int \<Rightarrow> int \<Rightarrow> board" where
  "level6_lo b pc r =
     (if r \<le> 5 then
        (if r + 1 \<le> 5 \<and> cellAt b (r + 1) pc \<noteq> None
         then level6_lo (setCell b r pc (cellAt b (r + 1) pc)) pc (r + 1)
         else setCell b r pc None)
      else b)"
  by pat_completeness auto
termination
  by (relation "measure (\<lambda>(b, pc, r). nat (6 - r))") auto

declare level6_lo.simps [simp del]

function level6_hi :: "board \<Rightarrow> int \<Rightarrow> int \<Rightarrow> board" where
  "level6_hi b pc r =
     (if r \<ge> 5 then
        (if r - 1 \<ge> 5 \<and> cellAt b (r - 1) pc \<noteq> None
         then level6_hi (setCell b r pc (cellAt b (r - 1) pc)) pc (r - 1)
         else setCell b r pc None)
      else b)"
  by pat_completeness auto
termination
  by (relation "measure (\<lambda>(b, pc, r). nat (r - 4))") auto

declare level6_hi.simps [simp del]

definition level6 :: "board \<Rightarrow> pos \<Rightarrow> board" where
  "level6 b p =
     (if pos_r p < 5 then level6_lo b (pos_c p) (pos_r p)
      else if pos_r p > 5 then level6_hi b (pos_c p) (pos_r p)
      else setCell b (pos_r p) (pos_c p) None)"

text \<open>Level 7, toward middle column 8 (\<open>midC\<close>).\<close>

abbreviation midC :: int where "midC \<equiv> 8"

function level7_lo :: "board \<Rightarrow> int \<Rightarrow> int \<Rightarrow> board" where
  "level7_lo b pr c =
     (if c \<le> midC then
        (if c + 1 \<le> midC \<and> cellAt b pr (c + 1) \<noteq> None
         then level7_lo (setCell b pr c (cellAt b pr (c + 1))) pr (c + 1)
         else setCell b pr c None)
      else b)"
  by pat_completeness auto
termination
  by (relation "measure (\<lambda>(b, pr, c). nat (9 - c))") auto

declare level7_lo.simps [simp del]

function level7_hi :: "board \<Rightarrow> int \<Rightarrow> int \<Rightarrow> board" where
  "level7_hi b pr c =
     (if c > midC then
        (if c - 1 > midC \<and> cellAt b pr (c - 1) \<noteq> None
         then level7_hi (setCell b pr c (cellAt b pr (c - 1))) pr (c - 1)
         else setCell b pr c None)
      else b)"
  by pat_completeness auto
termination
  by (relation "measure (\<lambda>(b, pr, c). nat (c - 8))") auto

declare level7_hi.simps [simp del]

definition level7 :: "board \<Rightarrow> pos \<Rightarrow> board" where
  "level7 b p =
     (if pos_c p \<le> midC then level7_lo b (pos_r p) (pos_c p)
      else level7_hi b (pos_r p) (pos_c p))"

text \<open>
  \<open>applyLevel\<close>: the \<open>switch\<close> of the source, each case with its own ordering test.  The board
  is mutated in place by the source; the model passes it through.
\<close>

definition applyLevel :: "board \<Rightarrow> int \<Rightarrow> pos \<Rightarrow> pos \<Rightarrow> board" where
  "applyLevel board lvl a b =
     (if lvl = 1 then level1 (level1 board a) b
      else if lvl = 2 then
        (if pos_r a < pos_r b then level2 (level2 board b) a else level2 (level2 board a) b)
      else if lvl = 3 then
        (if pos_r a < pos_r b then level3 (level3 board a) b else level3 (level3 board b) a)
      else if lvl = 4 then
        (if pos_c a < pos_c b then level4 (level4 board a) b else level4 (level4 board b) a)
      else if lvl = 5 then
        (if pos_c a < pos_c b then level5 (level5 board b) a else level5 (level5 board a) b)
      else if lvl = 6 then
        (if pos_r a > 5 \<and> pos_r b > 5 then
           (if pos_r a < pos_r b then level6 (level6 board a) b else level6 (level6 board b) a)
         else
           (if pos_r a < pos_r b then level6 (level6 board b) a else level6 (level6 board a) b))
      else if lvl = 7 then
        (let centerC = 8; aRight = pos_c a > centerC; bRight = pos_c b > centerC in
         if aRight \<and> bRight then
           (if pos_c a < pos_c b then level7 (level7 board a) b else level7 (level7 board b) a)
         else
           (if pos_c a < pos_c b then level7 (level7 board b) a else level7 (level7 board a) b))
      else level1 (level1 board a) b)"

definition boardCleared :: "board \<Rightarrow> bool" where
  "boardCleared board = (\<forall>r \<in> set [1 ..< 10]. \<forall>c \<in> set [1 ..< 17]. cellAt board (int r) (int c) = None)"

text \<open>The board of line 8 of the source: \<open>ROWS\<close> rows of \<open>COLS\<close> cells, all \<open>null\<close>.\<close>

definition emptyBoard :: board where
  "emptyBoard = replicate (nat ROWS) (replicate (nat COLS) None)"

section \<open>Board generation and reshuffle\<close>

text \<open>
  \<open>Math.floor(Math.random() * (i + 1))\<close> is an integer between 0 and \<open>i\<close>.  The random
  source is a parameter \<open>rnd\<close>: \<open>rnd i\<close> stands for the number drawn in the iteration with
  loop counter \<open>i\<close>, brought into the range of the source's expression.
\<close>

definition randomIndex :: "(nat \<Rightarrow> nat) \<Rightarrow> nat \<Rightarrow> nat" where
  "randomIndex rnd i = rnd i mod (i + 1)"

definition swap :: "'a list \<Rightarrow> nat \<Rightarrow> nat \<Rightarrow> 'a list" where
  "swap bag i j = bag[i := bag ! j, j := bag ! i]"

text \<open>The Fisher-Yates loop \<open>for (let i = bag.length - 1; i > 0; i--)\<close>.\<close>

fun shuffleFrom :: "(nat \<Rightarrow> nat) \<Rightarrow> nat \<Rightarrow> 'a list \<Rightarrow> 'a list" where
  "shuffleFrom rnd 0 bag = bag"
| "shuffleFrom rnd (Suc k) bag = shuffleFrom rnd k (swap bag (Suc k) (randomIndex rnd (Suc k)))"

definition shuffle :: "(nat \<Rightarrow> nat) \<Rightarrow> 'a list \<Rightarrow> 'a list" where
  "shuffle rnd bag = shuffleFrom rnd (length bag - 1) bag"

text \<open>The interior cells in the order of the nested loops \<open>r = 1 .. ROWS - 2\<close>, \<open>c = 1 .. COLS - 2\<close>.\<close>

definition interiorCells :: "pos list" where
  "interiorCells = concat (map (\<lambda>r. map (\<lambda>c. Pos (int r) (int c)) [1 ..< 17]) [1 ..< 10])"

text \<open>
  \<open>bag[i]\<close>: inside the bag a tile; past its end JavaScript reads \<open>undefined\<close>, which happens
  in neither function on a board whose tiles are below \<open>TYPE_COUNT\<close>, and is read as an empty
  cell here.
\<close>

definition bagAt :: "nat list \<Rightarrow> nat \<Rightarrow> cell" where
  "bagAt bag i = (if i < length bag then Some (bag ! i) else None)"

fun fill :: "board \<Rightarrow> pos list \<Rightarrow> nat \<Rightarrow> nat list \<Rightarrow> board" where
  "fill b [] idx bag = b"
| "fill b (p # ps) idx bag = fill (setCell b (pos_r p) (pos_c p) (bagAt bag idx)) ps (idx + 1) bag"

definition initialBag :: "nat list" where
  "initialBag = concat (map (\<lambda>i. replicate (if i < 6 then 6 else 4) i) [0 ..< TYPE_COUNT])"

definition makeInitialBoard :: "(nat \<Rightarrow> nat) \<Rightarrow> board" where
  "makeInitialBoard rnd = fill emptyBoard interiorCells 0 (shuffle rnd initialBag)"

text \<open>
  \<open>rerandomRemaining\<close>, first loop: count the tile of every occupied interior cell, clear the
  cell and remember its position.  \<open>counts[v]++\<close> for a value outside \<open>counts\<close> would store
  \<open>NaN\<close> at an index the second loop never reads; the model leaves \<open>counts\<close> as it is.
\<close>

definition collectStep :: "nat list \<times> board \<times> pos list \<Rightarrow> pos \<Rightarrow> nat list \<times> board \<times> pos list" where
  "collectStep st p =
     (case st of (counts, b, positions) \<Rightarrow>
        (case cellAt b (pos_r p) (pos_c p) of
           None \<Rightarrow> (counts, b, positions)
         | Some v \<Rightarrow>
             ((if v < length counts then counts[v := counts ! v + 1] else counts),
              setCell b (pos_r p) (pos_c p) None,
              positions @ [p])))"

definition bagOfCounts :: "nat list \<Rightarrow> nat list" where
  "bagOfCounts counts = concat (map (\<lambda>t. replicate (counts ! t) t) [0 ..< TYPE_COUNT])"

definition rerandomRemaining :: "(nat \<Rightarrow> nat) \<Rightarrow> board \<Rightarrow> board" where
  "rerandomRemaining rnd board =
     (case foldl collectStep (replicate TYPE_COUNT 0, board, []) interiorCells of
        (counts, b, positions) \<Rightarrow> fill b positions 0 (shuffle rnd (bagOfCounts counts)))"

text \<open>
  Notions the claims speak about: the cell at a position, the tile values of a list of cells
  (in list order, empty cells skipped), the occupied cells among a list, and boards whose
  interior tiles are tile types, that is, numbers below \<open>TYPE_COUNT\<close>.
\<close>

definition cellOf :: "board \<Rightarrow> pos \<Rightarrow> cell" where
  "cellOf b p = cellAt b (pos_r p) (pos_c p)"

definition tileValues :: "board \<Rightarrow> pos list \<Rightarrow> nat list" where
  "tileValues b cells = List.map_filter (cellOf b) cells"

definition occupied :: "board \<Rightarrow> pos list \<Rightarrow> pos list" where
  "occupied b cells = filter (\<lambda>p. cellOf b p \<noteq> None) cells"

definition tiles_ok :: "board \<Rightarrow> bool" where
  "tiles_ok b \<longleftrightarrow> (\<forall>p \<in> set interiorCells. case cellOf b p of None \<Rightarrow> True | Some v \<Rightarrow> v < TYPE_COUNT)"

text \<open>The single-position collapse that the \<open>switch\<close> of \<open>applyLevel\<close> selects for a level.\<close>

definition levelFn :: "int \<Rightarrow> board \<Rightarrow> pos \<Rightarrow> board" where
  "levelFn lvl =
     (if lvl = 2 then level2 else if lvl = 3 then level3 else if lvl = 4 then level4
      else if lvl = 5 then level5 else if lvl = 6 then level6 else if lvl = 7 then level7
      else level1)"

text \<open>
  Following the words of the specification, not the code: the distance of a position from
  the destination its policy is named after, which is the top row for the upward level 3,
  the leftmost column for the leftward level 4, and the centre row 5 and centre column 8
  for the centre-biased levels 6 and 7.
\<close>

definition destinationDistance_spec :: "int \<Rightarrow> pos \<Rightarrow> int" where
  "destinationDistance_spec lvl p =
     (if lvl = 3 then pos_r p else if lvl = 4 then pos_c p
      else if lvl = 6 then \<bar>pos_r p - 5\<bar> else if lvl = 7 then \<bar>pos_c p - midC\<bar> else 0)"

section \<open>Basic facts about cell reads and writes\<close>

lemma length_setCell [simp]: "length (setCell b r c v) = length b"
  by (simp add: setCell_def)

lemma length_row_setCell [simp]: "i < length b \<Longrightarrow> length (setCell b r c v ! i) = length (b ! i)"
  by (cases "i = nat r") (auto simp: setCell_def nth_list_update)

lemma inRange_setCell [simp]: "inRange (setCell b r c v) r' c' = inRange b r' c'"
  by (auto simp: inRange_def)

lemma cellAt_setCell:
  "cellAt (setCell b r c v) r' c' = (if r' = r \<and> c' = c \<and> inRange b r c then v else cellAt b r' c')"
proof (cases "inRange b r c")
  case False
  then show ?thesis by (simp add: setCell_def)
next
  case True
  show ?thesis
  proof (cases "inRange b r' c'")
    case False
    then have "\<not> (r' = r \<and> c' = c)" using True by auto
    with False show ?thesis by (auto simp: cellAt_def)
  next
    case inr: True
    have "cellAt (setCell b r c v) r' c' = setCell b r c v ! nat r' ! nat c'"
      using inr by (simp add: cellAt_def)
    also have "\<dots> = (if r' = r \<and> c' = c then v else b ! nat r' ! nat c')"
      using True inr by (auto simp: setCell_def inRange_def nth_list_update)
    finally show ?thesis using True inr by (simp add: cellAt_def)
  qed
qed

lemma wf_board_setCell [simp]: "wf_board (setCell b r c v) = wf_board b"
proof -
  have "(\<forall>i < length b. int (length (setCell b r c v ! i)) = COLS) = (\<forall>i < length b. int (length (b ! i)) = COLS)"
    by auto
  then show ?thesis
    by (simp add: wf_board_def all_set_conv_all_nth)
qed



section \<open>What a single collapse may write\<close>

text \<open>
  Each loop writes only in its own column (row), from the start position onward in the
  direction it walks, and never at the index where the loop condition stops it.
\<close>

lemma level2_loop_frame:
  "c' \<noteq> pc \<or> r' < r \<or> r' \<ge> ROWS - 1 \<Longrightarrow> cellAt (level2_loop b pc r) r' c' = cellAt b r' c'"
proof (induction b pc r rule: level2_loop.induct)
  case (1 b pc r)
  show ?case
    using "1.prems" "1.IH" by (subst level2_loop.simps) (auto simp: cellAt_setCell)
qed

lemma level3_loop_frame:
  "c' \<noteq> pc \<or> r' > r \<or> r' \<le> 0 \<Longrightarrow> cellAt (level3_loop b pc r) r' c' = cellAt b r' c'"
proof (induction b pc r rule: level3_loop.induct)
  case (1 b pc r)
  show ?case
    using "1.prems" "1.IH" by (subst level3_loop.simps) (auto simp: cellAt_setCell)
qed

lemma level4_loop_frame:
  "r' \<noteq> pr \<or> c' > c \<or> c' \<le> 0 \<Longrightarrow> cellAt (level4_loop b pr c) r' c' = cellAt b r' c'"
proof (induction b pr c rule: level4_loop.induct)
  case (1 b pr c)
  show ?case
    using "1.prems" "1.IH" by (subst level4_loop.simps) (auto simp: cellAt_setCell)
qed

lemma level5_loop_frame:
  "r' \<noteq> pr \<or> c' < c \<or> c' \<ge> COLS - 1 \<Longrightarrow> cellAt (level5_loop b pr c) r' c' = cellAt b r' c'"
proof (induction b pr c rule: level5_loop.induct)
  case (1 b pr c)
  show ?case
    using "1.prems" "1.IH" by (subst level5_loop.simps) (auto simp: cellAt_setCell)
qed

lemma level6_lo_frame:
  "c' \<noteq> pc \<or> r' < r \<or> r' > 5 \<Longrightarrow> cellAt (level6_lo b pc r) r' c' = cellAt b r' c'"
proof (induction b pc r rule: level6_lo.induct)
  case (1 b pc r)
  show ?case
    using "1.prems" "1.IH" by (subst level6_lo.simps) (auto simp: cellAt_setCell)
qed

lemma level6_hi_frame:
  "c' \<noteq> pc \<or> r' > r \<or> r' < 5 \<Longrightarrow> cellAt (level6_hi b pc r) r' c' = cellAt b r' c'"
proof (induction b pc r rule: level6_hi.induct)
  case (1 b pc r)
  show ?case
    using "1.prems" "1.IH" by (subst level6_hi.simps) (auto simp: cellAt_setCell)
qed

lemma level7_lo_frame:
  "r' \<noteq> pr \<or> c' < c \<or> c' > midC \<Longrightarrow> cellAt (level7_lo b pr c) r' c' = cellAt b r' c'"
proof (induction b pr c rule: level7_lo.induct)
  case (1 b pr c)
  show ?case
    using "1.prems" "1.IH" by (subst level7_lo.simps) (auto simp: cellAt_setCell)
qed

lemma level7_hi_frame:
  "r' \<noteq> pr \<or> c' > c \<or> c' \<le> midC \<Longrightarrow> cellAt (level7_hi b pr c) r' c' = cellAt b r' c'"
proof (induction b pr c rule: level7_hi.induct)
  case (1 b pr c)
  show ?case
    using "1.prems" "1.IH" by (subst level7_hi.simps) (auto simp: cellAt_setCell)
qed

lemma level1_frame:
  "r' \<noteq> pos_r p \<or> c' \<noteq> pos_c p \<Longrightarrow> cellAt (level1 b p) r' c' = cellAt b r' c'"
  by (auto simp: level1_def cellAt_setCell)

lemma level2_frame:
  "c' \<noteq> pos_c p \<or> r' < pos_r p \<or> r' \<ge> ROWS - 1 \<Longrightarrow> cellAt (level2 b p) r' c' = cellAt b r' c'"
  unfolding level2_def by (rule level2_loop_frame)

lemma level3_frame:
  "c' \<noteq> pos_c p \<or> r' > pos_r p \<or> r' \<le> 0 \<Longrightarrow> cellAt (level3 b p) r' c' = cellAt b r' c'"
  unfolding level3_def by (rule level3_loop_frame)

lemma level4_frame:
  "r' \<noteq> pos_r p \<or> c' > pos_c p \<or> c' \<le> 0 \<Longrightarrow> cellAt (level4 b p) r' c' = cellAt b r' c'"
  unfolding level4_def by (rule level4_loop_frame)

lemma level5_frame:
  "r' \<noteq> pos_r p \<or> c' < pos_c p \<or> c' \<ge> COLS - 1 \<Longrightarrow> cellAt (level5 b p) r' c' = cellAt b r' c'"
  unfolding level5_def by (rule level5_loop_frame)

lemma level6_frame:
  "c' \<noteq> pos_c p \<or> r' < min (pos_r p) 5 \<or> r' > max (pos_r p) 5 \<Longrightarrow>
   cellAt (level6 b p) r' c' = cellAt b r' c'"
  unfolding level6_def
  by (auto simp: level6_lo_frame level6_hi_frame cellAt_setCell)

lemma level7_frame:
  "r' \<noteq> pos_r p \<or> c' < min (pos_c p) (midC + 1) \<or> c' > max (pos_c p) midC \<Longrightarrow>
   cellAt (level7 b p) r' c' = cellAt b r' c'"
  unfolding level7_def
  by (auto simp: level7_lo_frame level7_hi_frame)


lemma applyLevel_frame_col:
  assumes "lvl = 2 \<or> lvl = 3 \<or> lvl = 6" and "c' \<noteq> pos_c a" and "c' \<noteq> pos_c b"
  shows "cellAt (applyLevel board lvl a b) r' c' = cellAt board r' c'"
  using assms by (auto simp: applyLevel_def level2_frame level3_frame level6_frame)

lemma applyLevel_frame_row:
  assumes "lvl = 4 \<or> lvl = 5 \<or> lvl = 7" and "r' \<noteq> pos_r a" and "r' \<noteq> pos_r b"
  shows "cellAt (applyLevel board lvl a b) r' c' = cellAt board r' c'"
  using assms by (auto simp: applyLevel_def Let_def level4_frame level5_frame level7_frame)

lemma applyLevel_frame_cell:
  assumes "lvl = 1" and "Pos r' c' \<noteq> a" and "Pos r' c' \<noteq> b"
  shows "cellAt (applyLevel board lvl a b) r' c' = cellAt board r' c'"
proof -
  from assms have "r' \<noteq> pos_r a \<or> c' \<noteq> pos_c a" "r' \<noteq> pos_r b \<or> c' \<noteq> pos_c b"
    by (cases a; cases b; auto)+
  then show ?thesis
    using assms(1) by (simp add: applyLevel_def level1_frame)
qed


lemma map_length_setCell [simp]: "map length (setCell b r c v) = map length b"
  by (rule nth_equalityI) auto

lemma map_length_level2_loop [simp]: "map length (level2_loop b pc r) = map length b"
  by (induction b pc r rule: level2_loop.induct) (subst level2_loop.simps, simp)

lemma map_length_level3_loop [simp]: "map length (level3_loop b pc r) = map length b"
  by (induction b pc r rule: level3_loop.induct) (subst level3_loop.simps, simp)

lemma map_length_level4_loop [simp]: "map length (level4_loop b pr c) = map length b"
  by (induction b pr c rule: level4_loop.induct) (subst level4_loop.simps, simp)

lemma map_length_level5_loop [simp]: "map length (level5_loop b pr c) = map length b"
  by (induction b pr c rule: level5_loop.induct) (subst level5_loop.simps, simp)

lemma map_length_level6_lo [simp]: "map length (level6_lo b pc r) = map length b"
  by (induction b pc r rule: level6_lo.induct) (subst level6_lo.simps, simp)

lemma map_length_level6_hi [simp]: "map length (level6_hi b pc r) = map length b"
  by (induction b pc r rule: level6_hi.induct) (subst level6_hi.simps, simp)

lemma map_length_level7_lo [simp]: "map length (level7_lo b pr c) = map length b"
  by (induction b pr c rule: level7_lo.induct) (subst level7_lo.simps, simp)

lemma map_length_level7_hi [simp]: "map length (level7_hi b pr c) = map length b"
  by (induction b pr c rule: level7_hi.induct) (subst level7_hi.simps, simp)

lemma map_length_applyLevel [simp]: "map length (applyLevel board lvl a b) = map length board"
  by (simp add: applyLevel_def Let_def level1_def level2_def level3_def level4_def level5_def
      level6_def level7_def)

lemma wf_board_map_length: "wf_board b \<longleftrightarrow> map length b = replicate 11 18"
proof
  assume "wf_board b"
  then show "map length b = replicate 11 18"
    by (intro nth_equalityI) (auto simp: wf_board_def)
next
  assume h: "map length b = replicate 11 18"
  then have len: "length b = 11" by (metis length_map length_replicate)
  have "length (b ! i) = 18" if "i < length b" for i
  proof -
    have "map length b ! i = replicate 11 18 ! i" using h by simp
    then show ?thesis using that len by simp
  qed
  then show "wf_board b"
    using len by (auto simp: wf_board_def in_set_conv_nth)
qed

lemma wf_board_applyLevel [simp]: "wf_board (applyLevel board lvl a b) = wf_board board"
  by (simp add: wf_board_map_length)


section \<open>Generation and reshuffle: lemmas\<close>

lemma set_interiorCells: "set interiorCells = {p. interior p}"
proof -
  have "set interiorCells = {Pos (int r) (int c) | r c. 1 \<le> r \<and> r < 10 \<and> 1 \<le> c \<and> c < 17}"
    by (auto simp: interiorCells_def)
  also have "\<dots> = {p. interior p}"
  proof (intro set_eqI iffI; clarsimp simp: interior_def)
    fix p assume h: "1 \<le> pos_r p" "pos_r p < 10" "1 \<le> pos_c p" "pos_c p < 17"
    show "\<exists>r c. p = Pos (int r) (int c) \<and> Suc 0 \<le> r \<and> r < 10 \<and> Suc 0 \<le> c \<and> c < 17"
      using h by (intro exI[of _ "nat (pos_r p)"] exI[of _ "nat (pos_c p)"]) (cases p, auto)
  qed
  finally show ?thesis .
qed

lemma distinct_interiorCells: "distinct interiorCells"
  unfolding interiorCells_def
  by (rule distinct_concat) (auto simp: distinct_map inj_on_def)

lemma border_not_interior: "isBorder r c \<Longrightarrow> \<not> interior (Pos r c)"
  by (auto simp: isBorder_def interior_def)

lemma fill_frame: "Pos r c \<notin> set ps \<Longrightarrow> cellAt (fill b ps i bag) r c = cellAt b r c"
  by (induction b ps i bag rule: fill.induct) (auto simp: cellAt_setCell)

lemma cellAt_emptyBoard [simp]: "cellAt emptyBoard r c = None"
  by (auto simp: cellAt_def emptyBoard_def inRange_def)

lemma border_null_makeInitialBoard: "border_null (makeInitialBoard rnd)"
  by (auto simp: border_null_def makeInitialBoard_def fill_frame set_interiorCells border_not_interior)

lemma cellOf_setCell:
  "cellOf (setCell b (pos_r p) (pos_c p) v) q = (if q = p \<and> inRange b (pos_r p) (pos_c p) then v else cellOf b q)"
  by (cases p; cases q) (auto simp: cellOf_def cellAt_setCell)

lemma cellOf_Some_inRange: "cellOf b p = Some v \<Longrightarrow> inRange b (pos_r p) (pos_c p)"
  by (auto simp: cellOf_def cellAt_def split: if_splits)

lemma tileValues_Cons:
  "tileValues b (p # ps) = (case cellOf b p of None \<Rightarrow> tileValues b ps | Some v \<Rightarrow> v # tileValues b ps)"
  by (simp add: tileValues_def List.map_filter_simps split: option.splits)

lemma tileValues_cong: "(\<And>p. p \<in> set ps \<Longrightarrow> cellOf b p = cellOf b' p) \<Longrightarrow> tileValues b ps = tileValues b' ps"
  by (induction ps) (auto simp: tileValues_Cons tileValues_def List.map_filter_simps split: option.splits)

lemma occupied_cong: "(\<And>p. p \<in> set ps \<Longrightarrow> cellOf b p = cellOf b' p) \<Longrightarrow> occupied b ps = occupied b' ps"
  unfolding occupied_def by (rule filter_cong) auto

lemma collect_positions:
  "distinct cells \<Longrightarrow>
   snd (snd (foldl collectStep (counts, b, ps) cells)) = ps @ occupied b cells"
proof (induction cells arbitrary: counts b ps)
  case Nil
  then show ?case by (simp add: occupied_def)
next
  case (Cons p cells)
  show ?case
  proof (cases "cellOf b p")
    case None
    then have "collectStep (counts, b, ps) p = (counts, b, ps)"
      by (simp add: collectStep_def cellOf_def)
    then show ?thesis using Cons None by (simp add: occupied_def)
  next
    case (Some v)
    let ?b = "setCell b (pos_r p) (pos_c p) None"
    have step: "collectStep (counts, b, ps) p =
        ((if v < length counts then counts[v := counts ! v + 1] else counts), ?b, ps @ [p])"
      using Some by (simp add: collectStep_def cellOf_def)
    have "occupied ?b cells = occupied b cells"
      using Cons.prems by (intro occupied_cong) (auto simp: cellOf_setCell)
    then show ?thesis
      using Cons step Some by (simp add: occupied_def)
  qed
qed

lemma collect_board:
  "cellOf (fst (snd (foldl collectStep (counts, b, ps) cells))) q =
     (if q \<in> set cells then None else cellOf b q)"
proof (induction cells arbitrary: counts b ps)
  case Nil
  then show ?case by simp
next
  case (Cons p cells)
  show ?case
  proof (cases "cellOf b p")
    case None
    then have "collectStep (counts, b, ps) p = (counts, b, ps)"
      by (simp add: collectStep_def cellOf_def)
    then show ?thesis using Cons None by auto
  next
    case (Some v)
    let ?b = "setCell b (pos_r p) (pos_c p) None"
    have step: "collectStep (counts, b, ps) p =
        ((if v < length counts then counts[v := counts ! v + 1] else counts), ?b, ps @ [p])"
      using Some by (simp add: collectStep_def cellOf_def)
    show ?thesis
      using Cons step cellOf_Some_inRange[OF Some] by (auto simp: cellOf_setCell)
  qed
qed

lemma collect_counts:
  "distinct cells \<Longrightarrow> t < length counts \<Longrightarrow>
   length (fst (foldl collectStep (counts, b, ps) cells)) = length counts \<and>
   fst (foldl collectStep (counts, b, ps) cells) ! t = counts ! t + count (mset (tileValues b cells)) t"
proof (induction cells arbitrary: counts b ps)
  case Nil
  then show ?case by (simp add: tileValues_def List.map_filter_simps)
next
  case (Cons p cells)
  show ?case
  proof (cases "cellOf b p")
    case None
    then have "collectStep (counts, b, ps) p = (counts, b, ps)"
      by (simp add: collectStep_def cellOf_def)
    then show ?thesis using Cons None by (simp add: tileValues_Cons)
  next
    case (Some v)
    let ?b = "setCell b (pos_r p) (pos_c p) None"
    let ?c = "(if v < length counts then counts[v := counts ! v + 1] else counts)"
    have step: "collectStep (counts, b, ps) p = (?c, ?b, ps @ [p])"
      using Some by (simp add: collectStep_def cellOf_def)
    have tv: "tileValues ?b cells = tileValues b cells"
      using Cons.prems by (intro tileValues_cong) (auto simp: cellOf_setCell)
    have len: "length ?c = length counts" by simp
    have "length (fst (foldl collectStep (?c, ?b, ps @ [p]) cells)) = length ?c \<and>
          fst (foldl collectStep (?c, ?b, ps @ [p]) cells) ! t = ?c ! t + count (mset (tileValues ?b cells)) t"
      using Cons.prems by (intro Cons.IH) auto
    then show ?thesis
      using step Some tv Cons.prems(2) by (auto simp: tileValues_Cons nth_list_update)
  qed
qed

lemma mset_bag_sum:
  "mset (concat (map (\<lambda>t. replicate (f t) t) [0 ..< n])) = (\<Sum>t<n. replicate_mset (f t) t)"
  by (induction n) (auto simp: mset_concat)

lemma count_bag:
  "count (mset (concat (map (\<lambda>t. replicate (f t) t) [0 ..< n]))) x = (if x < n then f x else 0)"
  by (induction n) auto

lemma mset_bagOfCounts:
  assumes "\<And>t. t < TYPE_COUNT \<Longrightarrow> counts ! t = count M t" and "\<And>x. x \<in># M \<Longrightarrow> x < TYPE_COUNT"
  shows "mset (bagOfCounts counts) = M"
proof (rule multiset_eqI)
  fix x
  have "count (mset (bagOfCounts counts)) x = (if x < TYPE_COUNT then counts ! x else 0)"
    unfolding bagOfCounts_def by (rule count_bag)
  also have "\<dots> = count M x"
    using assms by (cases "x \<in># M") (auto simp: not_in_iff)
  finally show "count (mset (bagOfCounts counts)) x = count M x" .
qed

lemma mset_swap': "i < length xs \<Longrightarrow> j < length xs \<Longrightarrow> mset (swap xs i j) = mset xs"
  unfolding swap_def by (simp add: mset_swap)

lemma length_swap [simp]: "length (swap xs i j) = length xs"
  by (simp add: swap_def)

lemma randomIndex_le: "randomIndex rnd i \<le> i"
  by (simp add: randomIndex_def less_Suc_eq_le[symmetric])

lemma shuffleFrom_props:
  "k < length bag \<or> k = 0 \<Longrightarrow> mset (shuffleFrom rnd k bag) = mset bag \<and> length (shuffleFrom rnd k bag) = length bag"
proof (induction k arbitrary: bag)
  case 0
  then show ?case by simp
next
  case (Suc k)
  have "randomIndex rnd (Suc k) < length bag"
    using Suc.prems randomIndex_le[of rnd "Suc k"] by simp
  then have "mset (swap bag (Suc k) (randomIndex rnd (Suc k))) = mset bag"
    using Suc.prems by (simp add: mset_swap')
  moreover have "mset (shuffleFrom rnd k (swap bag (Suc k) (randomIndex rnd (Suc k)))) =
                 mset (swap bag (Suc k) (randomIndex rnd (Suc k))) \<and>
                 length (shuffleFrom rnd k (swap bag (Suc k) (randomIndex rnd (Suc k)))) =
                 length (swap bag (Suc k) (randomIndex rnd (Suc k)))"
    using Suc.prems by (intro Suc.IH) auto
  ultimately show ?case by simp
qed

lemma mset_shuffle [simp]: "mset (shuffle rnd bag) = mset bag"
  unfolding shuffle_def by (cases bag) (auto simp: shuffleFrom_props)

lemma length_shuffle [simp]: "length (shuffle rnd bag) = length bag"
  unfolding shuffle_def by (cases bag) (auto simp: shuffleFrom_props)

lemma collect_inRange:
  "inRange (fst (snd (foldl collectStep st cells))) r c = inRange (fst (snd st)) r c"
proof (induction cells arbitrary: st)
  case Nil
  then show ?case by simp
next
  case (Cons p cells)
  obtain counts b ps where st: "st = (counts, b, ps)" by (cases st) auto
  have "inRange (fst (snd (collectStep st p))) r c = inRange b r c"
    unfolding st by (auto simp: collectStep_def split: option.splits)
  then show ?case using Cons[of "collectStep st p"] st by simp
qed

lemma fill_inRange [simp]: "inRange (fill b ps i bag) r c = inRange b r c"
  by (induction b ps i bag rule: fill.induct) auto

lemma fill_frame': "q \<notin> set ps \<Longrightarrow> cellOf (fill b ps i bag) q = cellOf b q"
  by (cases q) (auto simp: cellOf_def fill_frame)

lemma length_occupied: "length (occupied b cells) = length (tileValues b cells)"
  by (induction cells) (auto simp: occupied_def tileValues_Cons tileValues_def List.map_filter_simps split: option.splits)

lemma fill_occupied:
  "distinct ps \<Longrightarrow> \<forall>p \<in> set ps. inRange b (pos_r p) (pos_c p) \<Longrightarrow> i + length ps \<le> length bag \<Longrightarrow>
   q \<in> set ps \<Longrightarrow> cellOf (fill b ps i bag) q \<noteq> None"
proof (induction b ps i bag rule: fill.induct)
  case (1 b idx bag)
  then show ?case by simp
next
  case (2 b p ps idx bag)
  show ?case
  proof (cases "q = p")
    case True
    then have "cellOf (fill b (p # ps) idx bag) q = cellOf (setCell b (pos_r p) (pos_c p) (bagAt bag idx)) p"
      using "2.prems" by (simp add: fill_frame')
    also have "\<dots> = bagAt bag idx"
      using "2.prems" by (simp add: cellOf_setCell)
    finally show ?thesis using "2.prems" by (simp add: bagAt_def)
  next
    case False
    then show ?thesis using "2.prems" "2.IH" by auto
  qed
qed

lemma fill_tileValues:
  "distinct cells \<Longrightarrow> \<forall>q \<in> set cells. cellOf b q = None \<Longrightarrow>
   \<forall>p \<in> set (filter P cells). inRange b (pos_r p) (pos_c p) \<Longrightarrow>
   i + length (filter P cells) \<le> length bag \<Longrightarrow>
   tileValues (fill b (filter P cells) i bag) cells = take (length (filter P cells)) (drop i bag)"
proof (induction cells arbitrary: b i)
  case Nil
  then show ?case by (simp add: tileValues_def List.map_filter_simps)
next
  case (Cons q cells)
  show ?case
  proof (cases "P q")
    case False
    have "cellOf (fill b (filter P cells) i bag) q = None"
      using Cons.prems by (simp add: fill_frame')
    moreover have "tileValues (fill b (filter P cells) i bag) cells = take (length (filter P cells)) (drop i bag)"
      using Cons.prems False by (intro Cons.IH) auto
    ultimately show ?thesis using False by (simp add: tileValues_Cons)
  next
    case True
    let ?b = "setCell b (pos_r q) (pos_c q) (bagAt bag i)"
    let ?ps = "filter P cells"
    have i: "i < length bag" using Cons.prems True by simp
    have "cellOf (fill ?b ?ps (i + 1) bag) q = cellOf ?b q"
      using Cons.prems by (simp add: fill_frame')
    also have "\<dots> = Some (bag ! i)"
      using Cons.prems True i by (simp add: cellOf_setCell bagAt_def)
    finally have hd: "cellOf (fill ?b ?ps (i + 1) bag) q = Some (bag ! i)" .
    have "tileValues (fill ?b ?ps (i + 1) bag) cells = take (length ?ps) (drop (i + 1) bag)"
      using Cons.prems True by (intro Cons.IH) (auto simp: cellOf_setCell)
    then show ?thesis
      using True hd i by (simp add: tileValues_Cons Cons_nth_drop_Suc[symmetric])
  qed
qed

lemma rerandomRemaining_unfold:
  "rerandomRemaining rnd board =
     fill (fst (snd (foldl collectStep (replicate TYPE_COUNT 0, board, []) interiorCells)))
          (occupied board interiorCells) 0
          (shuffle rnd (bagOfCounts (fst (foldl collectStep (replicate TYPE_COUNT 0, board, []) interiorCells))))"
proof -
  obtain counts b ps where r: "foldl collectStep (replicate TYPE_COUNT 0, board, []) interiorCells = (counts, b, ps)"
    by (cases "foldl collectStep (replicate TYPE_COUNT 0, board, []) interiorCells") auto
  have "ps = occupied board interiorCells"
    using collect_positions[OF distinct_interiorCells, of "replicate TYPE_COUNT 0" board "[]"] r by simp
  then show ?thesis
    by (simp add: rerandomRemaining_def r)
qed

lemma set_tileValues: "set (tileValues b cells) = {v. \<exists>p \<in> set cells. cellOf b p = Some v}"
  by (induction cells) (auto simp: tileValues_Cons tileValues_def List.map_filter_simps split: option.splits)

lemma tileValues_bound: "tiles_ok b \<Longrightarrow> x \<in> set (tileValues b interiorCells) \<Longrightarrow> x < TYPE_COUNT"
  by (force simp: tiles_ok_def set_tileValues split: option.splits)

lemma rerandom_bag:
  assumes "tiles_ok board"
  shows "mset (bagOfCounts (fst (foldl collectStep (replicate TYPE_COUNT 0, board, []) interiorCells)))
         = mset (tileValues board interiorCells)"
proof (rule mset_bagOfCounts)
  fix t :: nat assume "t < TYPE_COUNT"
  then show "fst (foldl collectStep (replicate TYPE_COUNT 0, board, []) interiorCells) ! t =
        count (mset (tileValues board interiorCells)) t"
    using collect_counts[OF distinct_interiorCells, of t "replicate TYPE_COUNT 0" board "[]"] by simp
next
  fix x assume "x \<in># mset (tileValues board interiorCells)"
  then show "x < TYPE_COUNT" using tileValues_bound[OF assms] by simp
qed

lemma rerandom_tileValues:
  assumes "tiles_ok board"
  shows "tileValues (rerandomRemaining rnd board) interiorCells =
         shuffle rnd (bagOfCounts (fst (foldl collectStep (replicate TYPE_COUNT 0, board, []) interiorCells)))"
proof -
  let ?res = "foldl collectStep (replicate TYPE_COUNT 0, board, []) interiorCells"
  let ?b1 = "fst (snd ?res)"
  let ?bag = "shuffle rnd (bagOfCounts (fst ?res))"
  have len: "length ?bag = length (occupied board interiorCells)"
    using rerandom_bag[OF assms] by (metis length_shuffle length_occupied size_mset)
  have none: "\<forall>q \<in> set interiorCells. cellOf ?b1 q = None"
    by (simp add: collect_board)
  have inr: "\<forall>p \<in> set (occupied board interiorCells). inRange ?b1 (pos_r p) (pos_c p)"
    by (auto simp: collect_inRange occupied_def dest: cellOf_Some_inRange)
  have "tileValues (fill ?b1 (occupied board interiorCells) 0 ?bag) interiorCells =
        take (length (occupied board interiorCells)) (drop 0 ?bag)"
    unfolding occupied_def
    using none inr len distinct_interiorCells
    by (intro fill_tileValues) (auto simp: occupied_def)
  then show ?thesis
    using len by (simp add: rerandomRemaining_unfold)
qed

lemma rerandom_cells:
  assumes "tiles_ok board"
  shows "cellOf (rerandomRemaining rnd board) q = None \<longleftrightarrow> cellOf board q = None"
    and "q \<notin> set interiorCells \<Longrightarrow> cellOf (rerandomRemaining rnd board) q = cellOf board q"
proof -
  let ?res = "foldl collectStep (replicate TYPE_COUNT 0, board, []) interiorCells"
  let ?b1 = "fst (snd ?res)"
  let ?bag = "shuffle rnd (bagOfCounts (fst ?res))"
  let ?ps = "occupied board interiorCells"
  have len: "length ?bag = length ?ps"
    using rerandom_bag[OF assms] by (metis length_shuffle length_occupied size_mset)
  have inr: "\<forall>p \<in> set ?ps. inRange ?b1 (pos_r p) (pos_c p)"
    by (auto simp: collect_inRange occupied_def dest: cellOf_Some_inRange)
  have dist: "distinct ?ps" by (simp add: occupied_def distinct_interiorCells)
  show "cellOf (rerandomRemaining rnd board) q = None \<longleftrightarrow> cellOf board q = None"
  proof (cases "q \<in> set ?ps")
    case True
    then have "cellOf (fill ?b1 ?ps 0 ?bag) q \<noteq> None"
      using dist inr len by (intro fill_occupied) auto
    moreover have "cellOf board q \<noteq> None" using True by (simp add: occupied_def)
    ultimately show ?thesis by (simp only: rerandomRemaining_unfold)
  next
    case False
    then have "cellOf (rerandomRemaining rnd board) q = cellOf ?b1 q"
      by (simp add: rerandomRemaining_unfold fill_frame')
    then show ?thesis using False by (auto simp: collect_board occupied_def)
  qed
  show "cellOf (rerandomRemaining rnd board) q = cellOf board q" if "q \<notin> set interiorCells"
  proof -
    have "q \<notin> set ?ps" using that by (simp add: occupied_def)
    then have "cellOf (rerandomRemaining rnd board) q = cellOf ?b1 q"
      by (simp add: rerandomRemaining_unfold fill_frame')
    then show ?thesis using that by (simp add: collect_board)
  qed
qed

section \<open>Constrained path finder: findPathLimitedTurns\<close>

text \<open>
  The search state of the source: the table \<open>visited[r][c][d]\<close> of turn counts (\<open>Infinity\<close> is
  \<open>None\<close>), the queue \<open>q\<close> of nodes, and \<open>endNode\<close>.  A node carries its parent, as the
  objects of the source do.  A read or write of \<open>visited\<close> is always guarded by \<open>inBounds\<close>
  with \<open>d\<close> below 4; outside the table the model never finds a value greater than \<open>nt\<close>.
  \<open>visited[start.r][start.c][d] = 0\<close> throws a \<open>TypeError\<close> when \<open>start\<close> is outside the
  grid.
\<close>

datatype js_error = TypeError

datatype node = Node (node_r: int) (node_c: int) (node_d: nat) (node_t: nat) (node_parent: "node option")

definition dirs :: "nat \<Rightarrow> int \<times> int" where
  "dirs d = (if d = 0 then (-1, 0) else if d = 1 then (1, 0) else if d = 2 then (0, -1) else (0, 1))"

type_synonym visited = "nat option list list list"

definition visitedInit :: visited where
  "visitedInit = replicate (nat ROWS) (replicate (nat COLS) (replicate 4 None))"

definition visitedIn :: "visited \<Rightarrow> int \<Rightarrow> int \<Rightarrow> nat \<Rightarrow> bool" where
  "visitedIn vis r c d \<longleftrightarrow>
     0 \<le> r \<and> nat r < length vis \<and> 0 \<le> c \<and> nat c < length (vis ! nat r) \<and> d < length (vis ! nat r ! nat c)"

definition visitedGt :: "visited \<Rightarrow> int \<Rightarrow> int \<Rightarrow> nat \<Rightarrow> nat \<Rightarrow> bool" where
  "visitedGt vis r c d nt \<longleftrightarrow>
     visitedIn vis r c d \<and> (case vis ! nat r ! nat c ! d of None \<Rightarrow> True | Some t \<Rightarrow> t > nt)"

definition visitedSet :: "visited \<Rightarrow> int \<Rightarrow> int \<Rightarrow> nat \<Rightarrow> nat \<Rightarrow> visited" where
  "visitedSet vis r c d t =
     (if visitedIn vis r c d
      then vis[nat r := (vis ! nat r)[nat c := (vis ! nat r ! nat c)[d := Some t]]]
      else vis)"

definition canPass :: "board \<Rightarrow> pos \<Rightarrow> int \<Rightarrow> int \<Rightarrow> bool" where
  "canPass board goal r c =
     (if \<not> inBounds r c then False
      else if r = pos_r goal \<and> c = pos_c goal then True
      else cellAt board r c = None)"

function castRay ::
  "board \<Rightarrow> pos \<Rightarrow> node \<Rightarrow> nat \<Rightarrow> nat \<Rightarrow> int \<Rightarrow> int \<Rightarrow> visited \<Rightarrow> node list \<Rightarrow> visited \<times> node list \<times> node option"
where
  "castRay board goal node nd nt nr nc vis q =
     (if inBounds nr nc \<and> canPass board goal nr nc then
        (if visitedGt vis nr nc nd nt then
           (let vis' = visitedSet vis nr nc nd nt;
                next = Node nr nc nd nt (Some node)
            in if nr = pos_r goal \<and> nc = pos_c goal then (vis', [], Some next)
               else castRay board goal node nd nt (nr + fst (dirs nd)) (nc + snd (dirs nd)) vis' (q @ [next]))
         else castRay board goal node nd nt (nr + fst (dirs nd)) (nc + snd (dirs nd)) vis q)
      else (vis, q, None))"
  by pat_completeness auto
termination
  by (relation "measure (\<lambda>(board, goal, node, nd, nt, nr, nc, vis, q).
        if nd = 0 then nat (nr + 1) else if nd = 1 then nat (ROWS - nr)
        else if nd = 2 then nat (nc + 1) else nat (COLS - nc))")
     (auto simp: inBounds_def dirs_def)

declare castRay.simps [simp del]

fun expandDirs ::
  "board \<Rightarrow> pos \<Rightarrow> nat \<Rightarrow> node \<Rightarrow> nat list \<Rightarrow> visited \<Rightarrow> node list \<Rightarrow> visited \<times> node list \<times> node option"
where
  "expandDirs board goal maxTurns node [] vis q = (vis, q, None)"
| "expandDirs board goal maxTurns node (nd # nds) vis q =
     (let turnCost = (if nd = node_d node then 0 else 1);
          nt = node_t node + (case node_parent node of None \<Rightarrow> 0 | Some par \<Rightarrow> turnCost)
      in if nt > maxTurns then expandDirs board goal maxTurns node nds vis q
         else (case castRay board goal node nd nt
                      (node_r node + fst (dirs nd)) (node_c node + snd (dirs nd)) vis q of
                 (vis', q', Some e) \<Rightarrow> (vis', q', Some e)
               | (vis', q', None) \<Rightarrow> expandDirs board goal maxTurns node nds vis' q'))"

declare expandDirs.simps [simp del]

definition weight :: "nat \<Rightarrow> nat option \<Rightarrow> nat" where
  "weight mt v = (case v of None \<Rightarrow> mt + 1 | Some t \<Rightarrow> t)"

definition visSum :: "nat \<Rightarrow> visited \<Rightarrow> nat" where
  "visSum mt vis = sum_list (map (\<lambda>row. sum_list (map (\<lambda>cell. sum_list (map (weight mt) cell)) row)) vis)"

lemma sum_list_update_less:
  fixes f :: "'a \<Rightarrow> nat"
  shows "i < length xs \<Longrightarrow> f x < f (xs ! i) \<Longrightarrow> sum_list (map f (xs[i := x])) < sum_list (map f xs)"
proof (induction xs arbitrary: i)
  case Nil
  then show ?case by simp
next
  case (Cons y ys)
  then show ?case by (cases i) auto
qed

lemma visSum_visitedSet:
  assumes "visitedGt vis r c d nt" and "nt \<le> mt"
  shows "visSum mt (visitedSet vis r c d nt) < visSum mt vis"
proof -
  let ?row = "vis ! nat r" and ?cell = "vis ! nat r ! nat c"
  have inr: "nat r < length vis" "nat c < length ?row" "d < length ?cell"
    using assms(1) by (auto simp: visitedGt_def visitedIn_def)
  have "weight mt (Some nt) < weight mt (?cell ! d)"
    using assms by (auto simp: visitedGt_def weight_def split: option.splits)
  then have "sum_list (map (weight mt) (?cell[d := Some nt])) < sum_list (map (weight mt) ?cell)"
    using inr(3) by (rule sum_list_update_less[rotated])
  then have "sum_list (map (\<lambda>cell. sum_list (map (weight mt) cell)) (?row[nat c := ?cell[d := Some nt]]))
           < sum_list (map (\<lambda>cell. sum_list (map (weight mt) cell)) ?row)"
    using inr(2) by (rule sum_list_update_less[rotated])
  then have "sum_list (map (\<lambda>row. sum_list (map (\<lambda>cell. sum_list (map (weight mt) cell)) row))
                 (vis[nat r := ?row[nat c := ?cell[d := Some nt]]]))
           < sum_list (map (\<lambda>row. sum_list (map (\<lambda>cell. sum_list (map (weight mt) cell)) row)) vis)"
    using inr(1) by (rule sum_list_update_less[rotated])
  then show ?thesis
    using assms(1) by (simp add: visSum_def visitedSet_def visitedGt_def)
qed

lemma castRay_stop:
  "\<not> (inBounds nr nc \<and> canPass board goal nr nc) \<Longrightarrow>
   castRay board goal node nd nt nr nc vis q = (vis, q, None)"
  by (subst castRay.simps) auto

lemma castRay_skip:
  "inBounds nr nc \<and> canPass board goal nr nc \<Longrightarrow> \<not> visitedGt vis nr nc nd nt \<Longrightarrow>
   castRay board goal node nd nt nr nc vis q =
   castRay board goal node nd nt (nr + fst (dirs nd)) (nc + snd (dirs nd)) vis q"
  by (subst castRay.simps) auto

lemma castRay_goal:
  "inBounds nr nc \<and> canPass board goal nr nc \<Longrightarrow> visitedGt vis nr nc nd nt \<Longrightarrow>
   nr = pos_r goal \<and> nc = pos_c goal \<Longrightarrow>
   castRay board goal node nd nt nr nc vis q =
   (visitedSet vis nr nc nd nt, [], Some (Node nr nc nd nt (Some node)))"
  by (subst castRay.simps) (auto simp: Let_def)

lemma castRay_push:
  "inBounds nr nc \<and> canPass board goal nr nc \<Longrightarrow> visitedGt vis nr nc nd nt \<Longrightarrow>
   \<not> (nr = pos_r goal \<and> nc = pos_c goal) \<Longrightarrow>
   castRay board goal node nd nt nr nc vis q =
   castRay board goal node nd nt (nr + fst (dirs nd)) (nc + snd (dirs nd))
     (visitedSet vis nr nc nd nt) (q @ [Node nr nc nd nt (Some node)])"
  by (subst castRay.simps) (auto simp: Let_def)

lemma castRay_measure:
  "nt \<le> mt \<Longrightarrow> castRay board goal node nd nt nr nc vis q = (vis', q', e) \<Longrightarrow>
   visSum mt vis' + length q' \<le> visSum mt vis + length q"
proof (induction board goal node nd nt nr nc vis q rule: castRay.induct)
  case (1 board goal node nd nt nr nc vis q)
  show ?case
  proof (cases "inBounds nr nc \<and> canPass board goal nr nc")
    case False
    then show ?thesis using "1.prems" by (simp add: castRay_stop)
  next
    case pass: True
    show ?thesis
    proof (cases "visitedGt vis nr nc nd nt")
      case False
      then have "castRay board goal node nd nt (nr + fst (dirs nd)) (nc + snd (dirs nd)) vis q = (vis', q', e)"
        using "1.prems" pass by (simp add: castRay_skip)
      then show ?thesis using "1.IH"(2)[OF pass False "1.prems"(1)] by simp
    next
      case gt: True
      have dec: "visSum mt (visitedSet vis nr nc nd nt) < visSum mt vis"
        using gt "1.prems"(1) by (rule visSum_visitedSet)
      show ?thesis
      proof (cases "nr = pos_r goal \<and> nc = pos_c goal")
        case True
        have "vis' = visitedSet vis nr nc nd nt \<and> q' = []"
          using "1.prems"(2) castRay_goal[OF pass gt True, of node q] by simp
        then show ?thesis using dec by simp
      next
        case False
        have "castRay board goal node nd nt (nr + fst (dirs nd)) (nc + snd (dirs nd))
                     (visitedSet vis nr nc nd nt) (q @ [Node nr nc nd nt (Some node)]) = (vis', q', e)"
          using "1.prems"(2) castRay_push[OF pass gt False, of node q] by simp
        then have "visSum mt vis' + length q' \<le> visSum mt (visitedSet vis nr nc nd nt) + length (q @ [Node nr nc nd nt (Some node)])"
          using "1.IH"(1)[OF pass gt refl refl False "1.prems"(1)] by simp
        then show ?thesis using dec by simp
      qed
    qed
  qed
qed

lemma expandDirs_measure:
  "expandDirs board goal mt node nds vis q = (vis', q', e) \<Longrightarrow>
   visSum mt vis' + length q' \<le> visSum mt vis + length q"
proof (induction nds arbitrary: vis q)
  case Nil
  then show ?case by (simp add: expandDirs.simps)
next
  case (Cons nd nds)
  define nt where "nt = node_t node + (case node_parent node of None \<Rightarrow> 0 | Some par \<Rightarrow> (if nd = node_d node then 0 else 1))"
  show ?case
  proof (cases "nt > mt")
    case True
    then show ?thesis using Cons by (simp add: nt_def Let_def expandDirs.simps)
  next
    case False
    obtain v1 q1 e1 where ray: "castRay board goal node nd nt (node_r node + fst (dirs nd)) (node_c node + snd (dirs nd)) vis q = (v1, q1, e1)"
      by (metis prod_cases3)
    have m1: "visSum mt v1 + length q1 \<le> visSum mt vis + length q"
      using castRay_measure[OF _ ray] False by simp
    show ?thesis
    proof (cases e1)
      case None
      then have "expandDirs board goal mt node nds v1 q1 = (vis', q', e)"
        using Cons.prems False ray by (simp add: nt_def[symmetric] Let_def expandDirs.simps)
      then show ?thesis using Cons.IH m1 by fastforce
    next
      case (Some a)
      then have "(vis', q', e) = (v1, q1, e1)"
        using Cons.prems False ray by (simp add: nt_def[symmetric] Let_def expandDirs.simps)
      then show ?thesis using m1 by simp
    qed
  qed
qed

function searchLoop :: "board \<Rightarrow> pos \<Rightarrow> nat \<Rightarrow> visited \<Rightarrow> node list \<Rightarrow> node option" where
  "searchLoop board goal maxTurns vis [] = None"
| "searchLoop board goal maxTurns vis (node # q) =
     (case expandDirs board goal maxTurns node [0, 1, 2, 3] vis q of
        (vis', q', Some e) \<Rightarrow> Some e
      | (vis', q', None) \<Rightarrow> searchLoop board goal maxTurns vis' q')"
  by pat_completeness auto
termination
  apply (relation "measure (\<lambda>(board, goal, mt, vis, q). visSum mt vis + length q)")
   apply simp
  subgoal for board goal maxTurns vis node q x y xa ya
    using expandDirs_measure[of board goal maxTurns node "[0, 1, 2, 3]" vis q x xa None]
    by auto
  done

fun walkBack :: "node \<Rightarrow> nat \<Rightarrow> pos list \<Rightarrow> pos list" where
  "walkBack (Node r c d t None) lastDir revPoints = revPoints"
| "walkBack (Node r c d t (Some par)) lastDir revPoints =
     (if node_d par \<noteq> lastDir
      then walkBack par (node_d par) (revPoints @ [Pos (node_r par) (node_c par)])
      else walkBack par lastDir revPoints)"

definition seedNodes :: "pos \<Rightarrow> node list" where
  "seedNodes start = map (\<lambda>d. Node (pos_r start) (pos_c start) d 0 None) [0, 1, 2, 3]"

definition seedVisited :: "pos \<Rightarrow> visited" where
  "seedVisited start = fold (\<lambda>d vis. visitedSet vis (pos_r start) (pos_c start) d 0) [0, 1, 2, 3] visitedInit"

definition findPathLimitedTurns :: "board \<Rightarrow> pos \<Rightarrow> pos \<Rightarrow> nat \<Rightarrow> js_error + pos list option" where
  "findPathLimitedTurns board start goal maxTurns =
     (if \<not> inBounds (pos_r start) (pos_c start) then Inl TypeError
      else Inr (case searchLoop board goal maxTurns (seedVisited start) (seedNodes start) of
                  None \<Rightarrow> None
                | Some endNode \<Rightarrow>
                    Some (rev (walkBack endNode (node_d endNode) [Pos (node_r endNode) (node_c endNode)]
                               @ [start]))))"


section \<open>Legal connections, in the words of the specification\<close>

text \<open>
  A connection is a walk of single steps, each in one of the four axis directions 0..3 of
  \<open>dirs\<close>; a straight segment is a run of equal directions, and a turn is a place where
  the direction changes.  It is legal when it has at least one step, every cell it steps on
  lies in the grid (border included) and is empty or is the goal, it ends on the goal, and it
  has at most \<open>maxTurns\<close> turns.
\<close>

definition stepPos :: "pos \<Rightarrow> nat \<Rightarrow> pos" where
  "stepPos p d = Pos (pos_r p + fst (dirs d)) (pos_c p + snd (dirs d))"

definition passable_spec :: "board \<Rightarrow> pos \<Rightarrow> pos \<Rightarrow> bool" where
  "passable_spec board goal p \<longleftrightarrow>
     inBounds (pos_r p) (pos_c p) \<and> (p = goal \<or> cellOf board p = None)"

fun walkOk :: "board \<Rightarrow> pos \<Rightarrow> pos \<Rightarrow> nat list \<Rightarrow> bool" where
  "walkOk board goal p [] = True"
| "walkOk board goal p (d # ds) =
     (d < 4 \<and> passable_spec board goal (stepPos p d) \<and> walkOk board goal (stepPos p d) ds)"

definition endOf :: "pos \<Rightarrow> nat list \<Rightarrow> pos" where
  "endOf p ds = foldl stepPos p ds"

fun turnsOf :: "nat list \<Rightarrow> nat" where
  "turnsOf (d # e # ds) = (if d = e then 0 else 1) + turnsOf (e # ds)"
| "turnsOf ds = 0"

definition legalRoute :: "board \<Rightarrow> pos \<Rightarrow> pos \<Rightarrow> nat \<Rightarrow> nat list \<Rightarrow> bool" where
  "legalRoute board start goal maxTurns ds \<longleftrightarrow>
     ds \<noteq> [] \<and> walkOk board goal start ds \<and> endOf start ds = goal \<and> turnsOf ds \<le> maxTurns"

section \<open>Path finder: every node of the search is reached by a connection\<close>

lemma canPass_spec: "canPass board goal r c = passable_spec board goal (Pos r c)"
  by (cases goal) (auto simp: canPass_def passable_spec_def cellOf_def)

lemma endOf_simps [simp]:
  "endOf p [] = p" "endOf p (d # ds) = endOf (stepPos p d) ds" "endOf p (ds @ [d]) = stepPos (endOf p ds) d"
  by (simp_all add: endOf_def)

lemma walkOk_snoc:
  "walkOk board goal p (ds @ [d]) =
     (walkOk board goal p ds \<and> d < 4 \<and> passable_spec board goal (stepPos (endOf p ds) d))"
  by (induction ds arbitrary: p) auto

lemma turnsOf_snoc:
  "ds \<noteq> [] \<Longrightarrow> turnsOf (ds @ [d]) = turnsOf ds + (if last ds = d then 0 else 1)"
  by (induction ds rule: turnsOf.induct) auto

definition reach :: "board \<Rightarrow> pos \<Rightarrow> pos \<Rightarrow> pos \<Rightarrow> nat \<Rightarrow> nat \<Rightarrow> bool" where
  "reach board goal start p d t \<longleftrightarrow>
     (\<exists>ds. ds \<noteq> [] \<and> walkOk board goal start ds \<and> endOf start ds = p \<and> last ds = d \<and> turnsOf ds \<le> t)"

lemma reach_first:
  "d < 4 \<Longrightarrow> passable_spec board goal (stepPos start d) \<Longrightarrow> reach board goal start (stepPos start d) d 0"
  unfolding reach_def by (rule exI[of _ "[d]"]) simp

lemma reach_step:
  assumes "reach board goal start p d t" and "nd < 4" and "passable_spec board goal (stepPos p nd)"
  shows "reach board goal start (stepPos p nd) nd (t + (if nd = d then 0 else 1))"
proof -
  obtain ds where ds: "ds \<noteq> []" "walkOk board goal start ds" "endOf start ds = p" "last ds = d" "turnsOf ds \<le> t"
    using assms(1) by (auto simp: reach_def)
  have "walkOk board goal start (ds @ [nd])" using ds assms by (simp add: walkOk_snoc)
  moreover have "turnsOf (ds @ [nd]) \<le> t + (if nd = d then 0 else 1)"
    using ds by (auto simp: turnsOf_snoc)
  ultimately show ?thesis
    unfolding reach_def using ds by (intro exI[of _ "ds @ [nd]"]) simp
qed

definition nodePos :: "node \<Rightarrow> pos" where
  "nodePos n = Pos (node_r n) (node_c n)"

definition nodeOk :: "board \<Rightarrow> pos \<Rightarrow> pos \<Rightarrow> nat \<Rightarrow> node \<Rightarrow> bool" where
  "nodeOk board goal start mt n \<longleftrightarrow>
     (case node_parent n of
        None \<Rightarrow> nodePos n = start \<and> node_t n = 0
      | Some par \<Rightarrow> reach board goal start (nodePos n) (node_d n) (node_t n) \<and> node_t n \<le> mt)"

lemma castRay_sound:
  assumes "nd < 4" and "nt \<le> mt"
    and "canPass board goal nr nc \<longrightarrow> reach board goal start (Pos nr nc) nd nt"
    and "\<forall>n \<in> set q. nodeOk board goal start mt n"
    and "castRay board goal node nd nt nr nc vis q = (vis', q', e)"
  shows "(\<forall>n \<in> set q'. nodeOk board goal start mt n) \<and>
         (\<forall>x. e = Some x \<longrightarrow> nodeOk board goal start mt x \<and> nodePos x = goal \<and> node_parent x \<noteq> None)"
  using assms
proof (induction board goal node nd nt nr nc vis q rule: castRay.induct)
  case (1 board goal node nd nt nr nc vis q)
  show ?case
  proof (cases "inBounds nr nc \<and> canPass board goal nr nc")
    case False
    then show ?thesis using "1.prems" by (simp add: castRay_stop)
  next
    case pass: True
    then have here: "reach board goal start (Pos nr nc) nd nt" using "1.prems"(3) by simp
    have next_ok: "canPass board goal (nr + fst (dirs nd)) (nc + snd (dirs nd)) \<longrightarrow>
                   reach board goal start (Pos (nr + fst (dirs nd)) (nc + snd (dirs nd))) nd nt"
    proof
      assume "canPass board goal (nr + fst (dirs nd)) (nc + snd (dirs nd))"
      then have "passable_spec board goal (stepPos (Pos nr nc) nd)"
        by (simp add: canPass_spec stepPos_def)
      from reach_step[OF here "1.prems"(1) this]
      show "reach board goal start (Pos (nr + fst (dirs nd)) (nc + snd (dirs nd))) nd nt"
        by (simp add: stepPos_def)
    qed
    show ?thesis
    proof (cases "visitedGt vis nr nc nd nt")
      case False
      have "castRay board goal node nd nt (nr + fst (dirs nd)) (nc + snd (dirs nd)) vis q = (vis', q', e)"
        using "1.prems"(5) pass False by (simp add: castRay_skip)
      then show ?thesis
        using "1.IH"(2)[OF pass False "1.prems"(1,2) next_ok "1.prems"(4)] by simp
    next
      case gt: True
      have newOk: "nodeOk board goal start mt (Node nr nc nd nt (Some node))"
        using here "1.prems"(2) by (simp add: nodeOk_def nodePos_def)
      show ?thesis
      proof (cases "nr = pos_r goal \<and> nc = pos_c goal")
        case True
        have "q' = [] \<and> e = Some (Node nr nc nd nt (Some node))"
          using "1.prems"(5) castRay_goal[OF pass gt True, of node q] by simp
        then show ?thesis using newOk True by (cases goal) (auto simp: nodePos_def)
      next
        case False
        have c: "castRay board goal node nd nt (nr + fst (dirs nd)) (nc + snd (dirs nd))
                     (visitedSet vis nr nc nd nt) (q @ [Node nr nc nd nt (Some node)]) = (vis', q', e)"
          using "1.prems"(5) castRay_push[OF pass gt False, of node q] by simp
        have q_ok: "\<forall>n \<in> set (q @ [Node nr nc nd nt (Some node)]). nodeOk board goal start mt n"
          using "1.prems"(4) newOk by simp
        show ?thesis
          using "1.IH"(1)[OF pass gt refl refl False "1.prems"(1,2) next_ok q_ok c] by simp
      qed
    qed
  qed
qed

lemma expandDirs_sound:
  assumes "\<forall>nd \<in> set nds. nd < 4"
    and "nodeOk board goal start mt node"
    and "\<forall>n \<in> set q. nodeOk board goal start mt n"
    and "expandDirs board goal mt node nds vis q = (vis', q', e)"
  shows "(\<forall>n \<in> set q'. nodeOk board goal start mt n) \<and>
         (\<forall>x. e = Some x \<longrightarrow> nodeOk board goal start mt x \<and> nodePos x = goal \<and> node_parent x \<noteq> None)"
  using assms
proof (induction nds arbitrary: vis q)
  case Nil
  then show ?case by (simp add: expandDirs.simps)
next
  case (Cons nd nds)
  define nt where "nt = node_t node + (case node_parent node of None \<Rightarrow> 0 | Some par \<Rightarrow> (if nd = node_d node then 0 else 1))"
  have nd4: "nd < 4" using Cons.prems(1) by simp
  have nds4: "\<forall>nd \<in> set nds. nd < 4" using Cons.prems(1) by simp
  show ?case
  proof (cases "nt > mt")
    case True
    then have "expandDirs board goal mt node nds vis q = (vis', q', e)"
      using Cons.prems(4) by (simp add: nt_def Let_def expandDirs.simps)
    then show ?thesis by (rule Cons.IH[OF nds4 Cons.prems(2) Cons.prems(3)])
  next
    case False
    obtain v1 q1 e1 where ray: "castRay board goal node nd nt (node_r node + fst (dirs nd)) (node_c node + snd (dirs nd)) vis q = (v1, q1, e1)"
      by (metis prod_cases3)
    have first: "canPass board goal (node_r node + fst (dirs nd)) (node_c node + snd (dirs nd)) \<longrightarrow>
                 reach board goal start (Pos (node_r node + fst (dirs nd)) (node_c node + snd (dirs nd))) nd nt"
    proof
      assume "canPass board goal (node_r node + fst (dirs nd)) (node_c node + snd (dirs nd))"
      then have p: "passable_spec board goal (stepPos (nodePos node) nd)"
        by (simp add: canPass_spec stepPos_def nodePos_def)
      show "reach board goal start (Pos (node_r node + fst (dirs nd)) (node_c node + snd (dirs nd))) nd nt"
      proof (cases "node_parent node")
        case None
        then have st: "nodePos node = start" "nt = 0"
          using Cons.prems(2) by (simp_all add: nodeOk_def nt_def)
        have "node_r node = pos_r start" "node_c node = pos_c start"
          using st(1) by (auto simp: nodePos_def)
        then show ?thesis using reach_first[OF nd4, of board goal start] p st
          by (simp add: stepPos_def)
      next
        case (Some par)
        then have r: "reach board goal start (nodePos node) (node_d node) (node_t node)"
          using Cons.prems(2) by (simp add: nodeOk_def)
        have "nt = node_t node + (if nd = node_d node then 0 else 1)"
          using Some by (simp add: nt_def)
        then show ?thesis using reach_step[OF r nd4 p] by (simp add: stepPos_def nodePos_def)
      qed
    qed
    have s1: "(\<forall>n \<in> set q1. nodeOk board goal start mt n) \<and>
         (\<forall>x. e1 = Some x \<longrightarrow> nodeOk board goal start mt x \<and> nodePos x = goal \<and> node_parent x \<noteq> None)"
      using castRay_sound[OF nd4 _ first Cons.prems(3) ray] False by simp
    show ?thesis
    proof (cases e1)
      case None
      then have "expandDirs board goal mt node nds v1 q1 = (vis', q', e)"
        using Cons.prems(4) False ray by (simp add: nt_def[symmetric] Let_def expandDirs.simps)
      then show ?thesis using Cons.IH[OF nds4 Cons.prems(2), of q1 v1] s1 by blast
    next
      case (Some a)
      then have "(vis', q', e) = (v1, q1, e1)"
        using Cons.prems(4) False ray by (simp add: nt_def[symmetric] Let_def expandDirs.simps)
      then show ?thesis using s1 by simp
    qed
  qed
qed

lemma searchLoop_sound:
  "\<forall>n \<in> set q. nodeOk board goal start mt n \<Longrightarrow> searchLoop board goal mt vis q = Some x \<Longrightarrow>
   nodeOk board goal start mt x \<and> nodePos x = goal \<and> node_parent x \<noteq> None"
proof (induction board goal mt vis q rule: searchLoop.induct)
  case (1 board goal maxTurns vis)
  then show ?case by simp
next
  case (2 board goal maxTurns vis node q)
  obtain v1 q1 e1 where ex: "expandDirs board goal maxTurns node [0, 1, 2, 3] vis q = (v1, q1, e1)"
    by (metis prod_cases3)
  have s: "(\<forall>n \<in> set q1. nodeOk board goal start maxTurns n) \<and>
         (\<forall>x. e1 = Some x \<longrightarrow> nodeOk board goal start maxTurns x \<and> nodePos x = goal \<and> node_parent x \<noteq> None)"
    using expandDirs_sound[OF _ _ _ ex, of start] "2.prems"(1) by simp
  show ?case
  proof (cases e1)
    case None
    then have "searchLoop board goal maxTurns v1 q1 = Some x" using "2.prems"(2) ex by simp
    then show ?thesis using "2.IH"[OF ex[symmetric] refl None] s None by simp
  next
    case (Some a)
    then have "x = a" using "2.prems"(2) ex by simp
    then show ?thesis using s Some by simp
  qed
qed

lemma findPath_sound:
  assumes "findPathLimitedTurns board start goal mt = Inr (Some path)"
  shows "\<exists>ds. legalRoute board start goal mt ds"
proof -
  have inb: "inBounds (pos_r start) (pos_c start)"
    using assms by (auto simp: findPathLimitedTurns_def split: if_splits)
  then obtain x where x: "searchLoop board goal mt (seedVisited start) (seedNodes start) = Some x"
    using assms by (auto simp: findPathLimitedTurns_def split: option.splits)
  have seeds: "\<forall>n \<in> set (seedNodes start). nodeOk board goal start mt n"
    by (auto simp: seedNodes_def nodeOk_def nodePos_def)
  from searchLoop_sound[OF seeds x]
  have "reach board goal start goal (node_d x) (node_t x)" "node_t x \<le> mt"
    by (auto simp: nodeOk_def split: option.splits)
  then show ?thesis by (auto simp: reach_def legalRoute_def)
qed

section \<open>Path finder: the visited table\<close>

definition visAt :: "visited \<Rightarrow> int \<Rightarrow> int \<Rightarrow> nat \<Rightarrow> nat option" where
  "visAt vis r c d = (if visitedIn vis r c d then vis ! nat r ! nat c ! d else None)"

definition tableOk :: "visited \<Rightarrow> bool" where
  "tableOk vis \<longleftrightarrow> (\<forall>r c d. visitedIn vis r c d = (inBounds r c \<and> d < 4))"

definition within :: "nat option \<Rightarrow> nat \<Rightarrow> bool" where
  "within v n = (case v of None \<Rightarrow> False | Some t \<Rightarrow> t \<le> n)"

lemma visitedIn_visitedSet [simp]:
  "visitedIn (visitedSet vis r c d t) r' c' d' = visitedIn vis r' c' d'"
  by (auto simp: visitedIn_def visitedSet_def nth_list_update)

lemma visAt_visitedSet:
  "visAt (visitedSet vis r c d t) r' c' d' =
     (if r' = r \<and> c' = c \<and> d' = d \<and> visitedIn vis r c d then Some t else visAt vis r' c' d')"
proof (cases "visitedIn vis r c d")
  case False
  then show ?thesis by (simp add: visitedSet_def)
next
  case True
  show ?thesis
  proof (cases "visitedIn vis r' c' d'")
    case False
    then have "\<not> (r' = r \<and> c' = c \<and> d' = d)" using True by auto
    with False show ?thesis by (auto simp: visAt_def)
  next
    case inr: True
    have "visAt (visitedSet vis r c d t) r' c' d' = visitedSet vis r c d t ! nat r' ! nat c' ! d'"
      using inr by (simp add: visAt_def)
    also have "\<dots> = (if r' = r \<and> c' = c \<and> d' = d then Some t else vis ! nat r' ! nat c' ! d')"
      using True inr by (auto simp: visitedSet_def visitedIn_def nth_list_update)
    finally show ?thesis using True inr by (simp add: visAt_def)
  qed
qed

lemma tableOk_visitedSet [simp]: "tableOk (visitedSet vis r c d t) = tableOk vis"
  by (simp add: tableOk_def)

lemma visitedGt_iff: "visitedGt vis r c d nt = (visitedIn vis r c d \<and> \<not> within (visAt vis r c d) nt)"
  by (auto simp: visitedGt_def visAt_def within_def split: option.splits)

lemma canPass_inBounds: "canPass board goal r c \<Longrightarrow> inBounds r c"
  by (auto simp: canPass_def split: if_splits)

lemma within_mono_set:
  "within (visAt vis r' c' d') n \<Longrightarrow> \<not> within (visAt vis r c d) nt \<Longrightarrow>
   within (visAt (visitedSet vis r c d nt) r' c' d') n"
  by (auto simp: visAt_visitedSet within_def split: option.splits)

lemma castRay_closed:
  assumes "tableOk vis" and "nd < 4"
    and "castRay board goal node nd nt nr nc vis q = (vis', q', None)"
  shows "tableOk vis' \<and>
         (\<forall>r c d n. within (visAt vis r c d) n \<longrightarrow> within (visAt vis' r c d) n) \<and>
         set q \<subseteq> set q' \<and>
         (\<forall>n \<in> set q'. n \<in> set q \<or> node_parent n = Some node) \<and>
         (\<forall>r c d. visAt vis' r c d \<noteq> visAt vis r c d \<longrightarrow>
              Pos r c \<noteq> goal \<and> (\<exists>t. visAt vis' r c d = Some t \<and> Node r c d t (Some node) \<in> set q')) \<and>
         (canPass board goal nr nc \<longrightarrow> within (visAt vis' nr nc nd) nt)"
  using assms
proof (induction board goal node nd nt nr nc vis q rule: castRay.induct)
  case (1 board goal node nd nt nr nc vis q)
  show ?case
  proof (cases "inBounds nr nc \<and> canPass board goal nr nc")
    case False
    then have "vis' = vis" "q' = q" using "1.prems"(3) by (simp_all add: castRay_stop)
    then show ?thesis using False "1.prems"(1) by (auto dest: canPass_inBounds)
  next
    case pass: True
    have vin: "visitedIn vis nr nc nd"
      using pass "1.prems"(1,2) by (simp add: tableOk_def)
    show ?thesis
    proof (cases "visitedGt vis nr nc nd nt")
      case False
      have c: "castRay board goal node nd nt (nr + fst (dirs nd)) (nc + snd (dirs nd)) vis q = (vis', q', None)"
        using "1.prems"(3) pass False by (simp add: castRay_skip)
      note ih = "1.IH"(2)[OF pass False "1.prems"(1,2) c]
      have "within (visAt vis nr nc nd) nt" using False vin by (simp add: visitedGt_iff)
      then have "within (visAt vis' nr nc nd) nt" using ih by blast
      then show ?thesis using ih by blast
    next
      case gt: True
      then have nw: "\<not> within (visAt vis nr nc nd) nt" by (simp add: visitedGt_iff)
      show ?thesis
      proof (cases "nr = pos_r goal \<and> nc = pos_c goal")
        case True
        then show ?thesis
          using "1.prems"(3) castRay_goal[OF pass gt True, of node q] by simp
      next
        case False
        let ?v1 = "visitedSet vis nr nc nd nt" and ?N = "Node nr nc nd nt (Some node)"
        have c: "castRay board goal node nd nt (nr + fst (dirs nd)) (nc + snd (dirs nd)) ?v1 (q @ [?N]) = (vis', q', None)"
          using "1.prems"(3) castRay_push[OF pass gt False, of node q] by simp
        have t1: "tableOk ?v1" using "1.prems"(1) by simp
        note ih = "1.IH"(1)[OF pass gt refl refl False t1 "1.prems"(2) c]
        have mono: "\<forall>r c d n. within (visAt vis r c d) n \<longrightarrow> within (visAt vis' r c d) n"
          using ih within_mono_set[OF _ nw] by blast
        have sub: "set q \<subseteq> set q'" and Nin: "?N \<in> set q'" using ih by auto
        have par: "\<forall>n \<in> set q'. n \<in> set q \<or> node_parent n = Some node"
          using ih by auto
        have notgoal: "Pos nr nc \<noteq> goal" using False by (cases goal) auto
        have chg: "\<forall>r c d. visAt vis' r c d \<noteq> visAt vis r c d \<longrightarrow>
              Pos r c \<noteq> goal \<and> (\<exists>t. visAt vis' r c d = Some t \<and> Node r c d t (Some node) \<in> set q')"
        proof (intro allI impI)
          fix r c d assume ne: "visAt vis' r c d \<noteq> visAt vis r c d"
          show "Pos r c \<noteq> goal \<and> (\<exists>t. visAt vis' r c d = Some t \<and> Node r c d t (Some node) \<in> set q')"
          proof (cases "visAt vis' r c d = visAt ?v1 r c d")
            case False
            then show ?thesis using ih by blast
          next
            case True
            then have "visAt ?v1 r c d \<noteq> visAt vis r c d" using ne by simp
            then have "r = nr \<and> c = nc \<and> d = nd \<and> visAt ?v1 r c d = Some nt"
              by (auto simp: visAt_visitedSet split: if_splits)
            then show ?thesis using True Nin notgoal by auto
          qed
        qed
        have "within (visAt ?v1 nr nc nd) nt" using vin by (simp add: visAt_visitedSet within_def)
        then have first: "within (visAt vis' nr nc nd) nt" using ih by blast
        show ?thesis using ih mono sub par chg first by blast
      qed
    qed
  qed
qed

definition ntOf :: "node \<Rightarrow> nat \<Rightarrow> nat" where
  "ntOf node nd = node_t node + (case node_parent node of None \<Rightarrow> 0 | Some par \<Rightarrow> (if nd = node_d node then 0 else 1))"

lemma castRay_closedD:
  assumes "tableOk vis" and "nd < 4"
    and "castRay board goal node nd nt nr nc vis q = (vis', q', None)"
  shows "tableOk vis'"
    and "\<forall>r c d n. within (visAt vis r c d) n \<longrightarrow> within (visAt vis' r c d) n"
    and "set q \<subseteq> set q'"
    and "\<forall>n \<in> set q'. n \<in> set q \<or> node_parent n = Some node"
    and "\<forall>r c d. visAt vis' r c d \<noteq> visAt vis r c d \<longrightarrow>
              Pos r c \<noteq> goal \<and> (\<exists>t. visAt vis' r c d = Some t \<and> Node r c d t (Some node) \<in> set q')"
    and "canPass board goal nr nc \<longrightarrow> within (visAt vis' nr nc nd) nt"
proof -
  note c = castRay_closed[OF assms]
  show "tableOk vis'" using c by (elim conjE)
  show "\<forall>r c d n. within (visAt vis r c d) n \<longrightarrow> within (visAt vis' r c d) n" using c by (elim conjE)
  show "set q \<subseteq> set q'" using c by (elim conjE)
  show "\<forall>n \<in> set q'. n \<in> set q \<or> node_parent n = Some node" using c by (elim conjE)
  show "\<forall>r c d. visAt vis' r c d \<noteq> visAt vis r c d \<longrightarrow>
              Pos r c \<noteq> goal \<and> (\<exists>t. visAt vis' r c d = Some t \<and> Node r c d t (Some node) \<in> set q')"
    using c by (elim conjE)
  show "canPass board goal nr nc \<longrightarrow> within (visAt vis' nr nc nd) nt" using c by (elim conjE)
qed

lemma expandDirs_Cons:
  "expandDirs board goal mt node (nd # nds) vis q =
     (if ntOf node nd > mt then expandDirs board goal mt node nds vis q
      else (case castRay board goal node nd (ntOf node nd)
                   (node_r node + fst (dirs nd)) (node_c node + snd (dirs nd)) vis q of
              (vis', q', Some e) \<Rightarrow> (vis', q', Some e)
            | (vis', q', None) \<Rightarrow> expandDirs board goal mt node nds vis' q'))"
  by (simp only: expandDirs.simps ntOf_def Let_def)

lemma expandDirs_closed:
  assumes "tableOk vis" and "\<forall>nd \<in> set nds. nd < 4"
    and "expandDirs board goal mt node nds vis q = (vis', q', None)"
  shows "tableOk vis' \<and>
         (\<forall>r c d n. within (visAt vis r c d) n \<longrightarrow> within (visAt vis' r c d) n) \<and>
         set q \<subseteq> set q' \<and>
         (\<forall>n \<in> set q'. n \<in> set q \<or> node_parent n = Some node) \<and>
         (\<forall>r c d. visAt vis' r c d \<noteq> visAt vis r c d \<longrightarrow>
              Pos r c \<noteq> goal \<and> (\<exists>t. visAt vis' r c d = Some t \<and> Node r c d t (Some node) \<in> set q')) \<and>
         (\<forall>nd \<in> set nds. ntOf node nd \<le> mt \<longrightarrow>
              canPass board goal (node_r node + fst (dirs nd)) (node_c node + snd (dirs nd)) \<longrightarrow>
              within (visAt vis' (node_r node + fst (dirs nd)) (node_c node + snd (dirs nd)) nd) (ntOf node nd))"
  using assms
proof (induction nds arbitrary: vis q)
  case Nil
  then show ?case by (simp add: expandDirs.simps)
next
  case (Cons nd nds)
  have nd4: "nd < 4" and nds4: "\<forall>nd \<in> set nds. nd < 4" using Cons.prems(2) by simp_all
  show ?case
  proof (cases "ntOf node nd > mt")
    case True
    then have "expandDirs board goal mt node nds vis q = (vis', q', None)"
      using Cons.prems(3) by (simp add: expandDirs_Cons)
    note ih = Cons.IH[OF Cons.prems(1) nds4 this]
    have b1: "tableOk vis'" using ih by (elim conjE)
    have b2: "\<forall>r c d n. within (visAt vis r c d) n \<longrightarrow> within (visAt vis' r c d) n" using ih by (elim conjE)
    have b3: "set q \<subseteq> set q'" using ih by (elim conjE)
    have b4: "\<forall>n \<in> set q'. n \<in> set q \<or> node_parent n = Some node" using ih by (elim conjE)
    have b5: "\<forall>r c d. visAt vis' r c d \<noteq> visAt vis r c d \<longrightarrow>
              Pos r c \<noteq> goal \<and> (\<exists>t. visAt vis' r c d = Some t \<and> Node r c d t (Some node) \<in> set q')"
      using ih by (elim conjE)
    have b6: "\<forall>nd \<in> set nds. ntOf node nd \<le> mt \<longrightarrow>
              canPass board goal (node_r node + fst (dirs nd)) (node_c node + snd (dirs nd)) \<longrightarrow>
              within (visAt vis' (node_r node + fst (dirs nd)) (node_c node + snd (dirs nd)) nd) (ntOf node nd)"
      using ih by (elim conjE)
    have all: "\<forall>nd' \<in> set (nd # nds). ntOf node nd' \<le> mt \<longrightarrow>
              canPass board goal (node_r node + fst (dirs nd')) (node_c node + snd (dirs nd')) \<longrightarrow>
              within (visAt vis' (node_r node + fst (dirs nd')) (node_c node + snd (dirs nd')) nd') (ntOf node nd')"
      using b6 True by auto
    show ?thesis using b1 b2 b3 b4 b5 all by (intro conjI)
  next
    case False
    obtain v1 q1 e1 where ray: "castRay board goal node nd (ntOf node nd)
         (node_r node + fst (dirs nd)) (node_c node + snd (dirs nd)) vis q = (v1, q1, e1)"
      by (metis prod_cases3)
    have e1: "e1 = None"
      using Cons.prems(3) False ray by (cases e1) (simp_all add: expandDirs_Cons)
    have rest: "expandDirs board goal mt node nds v1 q1 = (vis', q', None)"
      using Cons.prems(3) False ray e1 by (simp add: expandDirs_Cons)
    note a = castRay_closedD[OF Cons.prems(1) nd4 ray[unfolded e1]]
    have t1: "tableOk v1" using a(1) .
    note ih = Cons.IH[OF t1 nds4 rest]
    have b1: "tableOk vis'" using ih by (elim conjE)
    have b2: "\<forall>r c d n. within (visAt v1 r c d) n \<longrightarrow> within (visAt vis' r c d) n" using ih by (elim conjE)
    have b3: "set q1 \<subseteq> set q'" using ih by (elim conjE)
    have b4: "\<forall>n \<in> set q'. n \<in> set q1 \<or> node_parent n = Some node" using ih by (elim conjE)
    have b5: "\<forall>r c d. visAt vis' r c d \<noteq> visAt v1 r c d \<longrightarrow>
              Pos r c \<noteq> goal \<and> (\<exists>t. visAt vis' r c d = Some t \<and> Node r c d t (Some node) \<in> set q')"
      using ih by (elim conjE)
    have b6: "\<forall>nd \<in> set nds. ntOf node nd \<le> mt \<longrightarrow>
              canPass board goal (node_r node + fst (dirs nd)) (node_c node + snd (dirs nd)) \<longrightarrow>
              within (visAt vis' (node_r node + fst (dirs nd)) (node_c node + snd (dirs nd)) nd) (ntOf node nd)"
      using ih by (elim conjE)
    have mono: "\<forall>r c d n. within (visAt vis r c d) n \<longrightarrow> within (visAt vis' r c d) n"
      using a(2) b2 by blast
    have sub: "set q \<subseteq> set q'" using a(3) b3 by blast
    have par: "\<forall>n \<in> set q'. n \<in> set q \<or> node_parent n = Some node"
      using a(4) b4 by blast
    have chg: "\<forall>r c d. visAt vis' r c d \<noteq> visAt vis r c d \<longrightarrow>
              Pos r c \<noteq> goal \<and> (\<exists>t. visAt vis' r c d = Some t \<and> Node r c d t (Some node) \<in> set q')"
    proof (intro allI impI)
      fix r c d assume ne: "visAt vis' r c d \<noteq> visAt vis r c d"
      show "Pos r c \<noteq> goal \<and> (\<exists>t. visAt vis' r c d = Some t \<and> Node r c d t (Some node) \<in> set q')"
      proof (cases "visAt vis' r c d = visAt v1 r c d")
        case False
        then show ?thesis using b5 by blast
      next
        case True
        then have "visAt v1 r c d \<noteq> visAt vis r c d" using ne by simp
        then have "Pos r c \<noteq> goal \<and> (\<exists>t. visAt v1 r c d = Some t \<and> Node r c d t (Some node) \<in> set q1)"
          using a(5) by blast
        then show ?thesis using True b3 by auto
      qed
    qed
    have here: "canPass board goal (node_r node + fst (dirs nd)) (node_c node + snd (dirs nd)) \<longrightarrow>
              within (visAt vis' (node_r node + fst (dirs nd)) (node_c node + snd (dirs nd)) nd) (ntOf node nd)"
      using a(6) b2 by blast
    have all: "\<forall>nd' \<in> set (nd # nds). ntOf node nd' \<le> mt \<longrightarrow>
              canPass board goal (node_r node + fst (dirs nd')) (node_c node + snd (dirs nd')) \<longrightarrow>
              within (visAt vis' (node_r node + fst (dirs nd')) (node_c node + snd (dirs nd')) nd') (ntOf node nd')"
      using here b6 by auto
    show ?thesis using b1 mono sub par chg all by (intro conjI)
  qed
qed

section \<open>The invariant of the search loop\<close>

definition stepClosed :: "board \<Rightarrow> pos \<Rightarrow> nat \<Rightarrow> visited \<Rightarrow> pos \<Rightarrow> nat \<Rightarrow> nat \<Rightarrow> bool" where
  "stepClosed board goal mt vis p d t \<longleftrightarrow>
     (\<forall>nd < 4. t + (if nd = d then 0 else 1) \<le> mt \<longrightarrow>
        passable_spec board goal (stepPos p nd) \<longrightarrow>
        within (visAt vis (pos_r (stepPos p nd)) (pos_c (stepPos p nd)) nd) (t + (if nd = d then 0 else 1)))"

definition startClosed :: "board \<Rightarrow> pos \<Rightarrow> visited \<Rightarrow> pos \<Rightarrow> bool" where
  "startClosed board goal vis start \<longleftrightarrow>
     (\<forall>nd < 4. passable_spec board goal (stepPos start nd) \<longrightarrow>
        within (visAt vis (pos_r (stepPos start nd)) (pos_c (stepPos start nd)) nd) 0)"

definition searchInv :: "board \<Rightarrow> pos \<Rightarrow> pos \<Rightarrow> nat \<Rightarrow> visited \<Rightarrow> node list \<Rightarrow> bool" where
  "searchInv board goal start mt vis q \<longleftrightarrow>
     tableOk vis \<and>
     (\<forall>d. visAt vis (pos_r goal) (pos_c goal) d = None) \<and>
     (\<forall>n \<in> set q. node_parent n = None \<longrightarrow> nodePos n = start \<and> node_t n = 0) \<and>
     ((\<exists>n \<in> set q. node_parent n = None) \<or> startClosed board goal vis start) \<and>
     (\<forall>r c d t. visAt vis r c d = Some t \<and> Pos r c \<noteq> start \<longrightarrow>
         (\<exists>n \<in> set q. node_r n = r \<and> node_c n = c \<and> node_d n = d \<and> node_t n = t \<and> node_parent n \<noteq> None)
         \<or> stepClosed board goal mt vis (Pos r c) d t)"

lemma stepClosed_mono:
  "stepClosed board goal mt vis p d t \<Longrightarrow>
   (\<forall>r c d n. within (visAt vis r c d) n \<longrightarrow> within (visAt vis' r c d) n) \<Longrightarrow>
   stepClosed board goal mt vis' p d t"
  unfolding stepClosed_def by blast

lemma startClosed_mono:
  "startClosed board goal vis start \<Longrightarrow>
   (\<forall>r c d n. within (visAt vis r c d) n \<longrightarrow> within (visAt vis' r c d) n) \<Longrightarrow>
   startClosed board goal vis' start"
  unfolding startClosed_def by blast

lemma searchInv_step:
  assumes inv: "searchInv board goal start mt vis (node # q)"
    and ex: "expandDirs board goal mt node [0, 1, 2, 3] vis q = (vis', q', None)"
  shows "searchInv board goal start mt vis' q'"
proof -
  have tab: "tableOk vis" using inv by (simp add: searchInv_def)
  have nds: "\<forall>nd \<in> set [0, 1, 2, 3]. nd < (4::nat)" by simp
  note cl = expandDirs_closed[OF tab nds ex]
  have t': "tableOk vis'" using cl by (elim conjE)
  have mono: "\<forall>r c d n. within (visAt vis r c d) n \<longrightarrow> within (visAt vis' r c d) n" using cl by (elim conjE)
  have sub: "set q \<subseteq> set q'" using cl by (elim conjE)
  have par: "\<forall>n \<in> set q'. n \<in> set q \<or> node_parent n = Some node" using cl by (elim conjE)
  have chg: "\<forall>r c d. visAt vis' r c d \<noteq> visAt vis r c d \<longrightarrow>
              Pos r c \<noteq> goal \<and> (\<exists>t. visAt vis' r c d = Some t \<and> Node r c d t (Some node) \<in> set q')"
    using cl by (elim conjE)
  have cl6: "\<forall>nd \<in> set [0, 1, 2, 3]. ntOf node nd \<le> mt \<longrightarrow>
              canPass board goal (node_r node + fst (dirs nd)) (node_c node + snd (dirs nd)) \<longrightarrow>
              within (visAt vis' (node_r node + fst (dirs nd)) (node_c node + snd (dirs nd)) nd) (ntOf node nd)"
    using cl by (elim conjE)
  have dirsCl: "\<forall>nd < 4. ntOf node nd \<le> mt \<longrightarrow>
              canPass board goal (node_r node + fst (dirs nd)) (node_c node + snd (dirs nd)) \<longrightarrow>
              within (visAt vis' (node_r node + fst (dirs nd)) (node_c node + snd (dirs nd)) nd) (ntOf node nd)"
  proof (intro allI impI)
    fix nd :: nat assume "nd < 4"
    then have "nd \<in> set [0, 1, 2, 3]" by auto
    moreover assume "ntOf node nd \<le> mt"
      "canPass board goal (node_r node + fst (dirs nd)) (node_c node + snd (dirs nd))"
    ultimately show "within (visAt vis' (node_r node + fst (dirs nd)) (node_c node + snd (dirs nd)) nd) (ntOf node nd)"
      using cl6 by blast
  qed
  have goalFree: "\<forall>d. visAt vis' (pos_r goal) (pos_c goal) d = None"
  proof
    fix d
    have "visAt vis (pos_r goal) (pos_c goal) d = None" using inv by (simp add: searchInv_def)
    moreover have "visAt vis' (pos_r goal) (pos_c goal) d = visAt vis (pos_r goal) (pos_c goal) d"
      using chg by (cases goal) auto
    ultimately show "visAt vis' (pos_r goal) (pos_c goal) d = None" by simp
  qed
  have seeds: "\<forall>n \<in> set q'. node_parent n = None \<longrightarrow> nodePos n = start \<and> node_t n = 0"
    using par inv by (auto simp: searchInv_def)
  have startC: "(\<exists>n \<in> set q'. node_parent n = None) \<or> startClosed board goal vis' start"
  proof (cases "node_parent node")
    case None
    then have st: "nodePos node = start" "node_t node = 0" using inv by (simp_all add: searchInv_def)
    have rc: "node_r node = pos_r start" "node_c node = pos_c start"
      using st(1) by (auto simp: nodePos_def)
    have "startClosed board goal vis' start"
      unfolding startClosed_def
    proof (intro allI impI)
      fix nd :: nat assume nd: "nd < 4" and p: "passable_spec board goal (stepPos start nd)"
      have "ntOf node nd = 0" using None st by (simp add: ntOf_def)
      moreover have "canPass board goal (node_r node + fst (dirs nd)) (node_c node + snd (dirs nd))"
        using p rc by (simp add: canPass_spec stepPos_def)
      ultimately have "within (visAt vis' (node_r node + fst (dirs nd)) (node_c node + snd (dirs nd)) nd) 0"
        using dirsCl nd by force
      then show "within (visAt vis' (pos_r (stepPos start nd)) (pos_c (stepPos start nd)) nd) 0"
        using rc by (simp add: stepPos_def)
    qed
    then show ?thesis ..
  next
    case (Some par)
    from inv have "(\<exists>n \<in> set (node # q). node_parent n = None) \<or> startClosed board goal vis start"
      by (simp add: searchInv_def)
    then show ?thesis
    proof
      assume "\<exists>n \<in> set (node # q). node_parent n = None"
      then have "\<exists>n \<in> set q. node_parent n = None" using Some by auto
      then show ?thesis using sub by blast
    next
      assume "startClosed board goal vis start"
      then show ?thesis using startClosed_mono mono by blast
    qed
  qed
  have closed: "\<forall>r c d t. visAt vis' r c d = Some t \<and> Pos r c \<noteq> start \<longrightarrow>
         (\<exists>n \<in> set q'. node_r n = r \<and> node_c n = c \<and> node_d n = d \<and> node_t n = t \<and> node_parent n \<noteq> None)
         \<or> stepClosed board goal mt vis' (Pos r c) d t"
  proof (intro allI impI)
    fix r c d t assume h: "visAt vis' r c d = Some t \<and> Pos r c \<noteq> start"
    show "(\<exists>n \<in> set q'. node_r n = r \<and> node_c n = c \<and> node_d n = d \<and> node_t n = t \<and> node_parent n \<noteq> None)
         \<or> stepClosed board goal mt vis' (Pos r c) d t"
    proof (cases "visAt vis' r c d = visAt vis r c d")
      case False
      then have "\<exists>t'. visAt vis' r c d = Some t' \<and> Node r c d t' (Some node) \<in> set q'"
        using chg by blast
      then have "Node r c d t (Some node) \<in> set q'" using h by auto
      then show ?thesis by force
    next
      case True
      then have old: "visAt vis r c d = Some t \<and> Pos r c \<noteq> start" using h by simp
      from inv old have "(\<exists>n \<in> set (node # q). node_r n = r \<and> node_c n = c \<and> node_d n = d \<and> node_t n = t \<and> node_parent n \<noteq> None)
         \<or> stepClosed board goal mt vis (Pos r c) d t"
        unfolding searchInv_def by blast
      then show ?thesis
      proof
        assume "\<exists>n \<in> set (node # q). node_r n = r \<and> node_c n = c \<and> node_d n = d \<and> node_t n = t \<and> node_parent n \<noteq> None"
        then consider "node_r node = r \<and> node_c node = c \<and> node_d node = d \<and> node_t node = t \<and> node_parent node \<noteq> None"
          | "\<exists>n \<in> set q. node_r n = r \<and> node_c n = c \<and> node_d n = d \<and> node_t n = t \<and> node_parent n \<noteq> None"
          by auto
        then show ?thesis
        proof cases
          case 1
          have "stepClosed board goal mt vis' (Pos r c) d t"
            unfolding stepClosed_def
          proof (intro allI impI)
            fix nd :: nat
            assume nd: "nd < 4" and le: "t + (if nd = d then 0 else 1) \<le> mt"
              and p: "passable_spec board goal (stepPos (Pos r c) nd)"
            have nt: "ntOf node nd = t + (if nd = d then 0 else 1)"
              using 1 by (auto simp: ntOf_def)
            have "canPass board goal (node_r node + fst (dirs nd)) (node_c node + snd (dirs nd))"
              using p 1 by (simp add: canPass_spec stepPos_def)
            then have "within (visAt vis' (node_r node + fst (dirs nd)) (node_c node + snd (dirs nd)) nd) (ntOf node nd)"
              using dirsCl nd le nt by force
            then show "within (visAt vis' (pos_r (stepPos (Pos r c) nd)) (pos_c (stepPos (Pos r c) nd)) nd)
                         (t + (if nd = d then 0 else 1))"
              using 1 nt by (simp add: stepPos_def)
          qed
          then show ?thesis ..
        next
          case 2
          then show ?thesis using sub by blast
        qed
      next
        assume "stepClosed board goal mt vis (Pos r c) d t"
        then show ?thesis using stepClosed_mono mono by blast
      qed
    qed
  qed
  show ?thesis
    unfolding searchInv_def using t' goalFree seeds startC closed by (intro conjI)
qed

lemma turnsOf_Cons_le: "turnsOf ds \<le> turnsOf (d # ds)"
  by (cases ds) auto

lemma turnsOf_Cons2: "turnsOf (d # nd # rest) = (if nd = d then 0 else 1) + turnsOf (nd # rest)"
  by auto

lemma within_SomeD: "within v n \<Longrightarrow> \<exists>t. v = Some t \<and> t \<le> n"
  by (cases v) (auto simp: within_def)

lemma no_route_when_closed:
  assumes goalFree: "\<forall>d. visAt vis (pos_r goal) (pos_c goal) d = None"
    and sc: "startClosed board goal vis start"
    and cl: "\<forall>r c d t. visAt vis r c d = Some t \<and> Pos r c \<noteq> start \<longrightarrow>
               stepClosed board goal mt vis (Pos r c) d t"
  shows "walkOk board goal p ds \<Longrightarrow> endOf p ds = goal \<Longrightarrow> ds \<noteq> [] \<Longrightarrow>
         (p = start \<and> turnsOf ds \<le> mt) \<or>
         (p \<noteq> start \<and> (\<exists>v. visAt vis (pos_r p) (pos_c p) d = Some v \<and> v + turnsOf (d # ds) \<le> mt)) \<Longrightarrow>
         False"
proof (induction ds arbitrary: p d)
  case Nil
  then show ?case by simp
next
  case (Cons nd rest)
  let ?c = "stepPos p nd"
  have nd4: "nd < 4" and pass: "passable_spec board goal ?c" and walk: "walkOk board goal ?c rest"
    using Cons.prems(1) by simp_all
  have endc: "endOf ?c rest = goal" using Cons.prems(2) by simp
  have "\<exists>v'. visAt vis (pos_r ?c) (pos_c ?c) nd = Some v' \<and> v' + turnsOf (nd # rest) \<le> mt"
  proof (cases "p = start")
    case True
    then have "turnsOf (nd # rest) \<le> mt" using Cons.prems(4) by simp
    moreover have "within (visAt vis (pos_r ?c) (pos_c ?c) nd) 0"
      using sc nd4 pass True by (simp add: startClosed_def)
    ultimately show ?thesis by (auto dest: within_SomeD)
  next
    case False
    then obtain v where v: "visAt vis (pos_r p) (pos_c p) d = Some v" "v + turnsOf (d # nd # rest) \<le> mt"
      using Cons.prems(4) by auto
    have "Pos (pos_r p) (pos_c p) \<noteq> start" using False by simp
    then have "stepClosed board goal mt vis (Pos (pos_r p) (pos_c p)) d v"
      using cl v(1) by blast
    then have sc': "stepClosed board goal mt vis p d v" by simp
    have le: "v + (if nd = d then 0 else 1) \<le> mt"
      using v(2) by (auto split: if_splits)
    have "within (visAt vis (pos_r ?c) (pos_c ?c) nd) (v + (if nd = d then 0 else 1))"
      using sc' nd4 le pass unfolding stepClosed_def by blast
    then obtain v' where v': "visAt vis (pos_r ?c) (pos_c ?c) nd = Some v'" "v' \<le> v + (if nd = d then 0 else 1)"
      by (auto dest: within_SomeD)
    have "v' + turnsOf (nd # rest) \<le> v + turnsOf (d # nd # rest)"
      using v'(2) by (auto split: if_splits)
    then show ?thesis using v'(1) v(2) by auto
  qed
  then obtain v' where v': "visAt vis (pos_r ?c) (pos_c ?c) nd = Some v'" "v' + turnsOf (nd # rest) \<le> mt"
    by auto
  have notgoal: "?c \<noteq> goal" using v'(1) goalFree by auto
  then have rest: "rest \<noteq> []" using endc by auto
  have "(?c = start \<and> turnsOf rest \<le> mt) \<or>
        (?c \<noteq> start \<and> (\<exists>v. visAt vis (pos_r ?c) (pos_c ?c) nd = Some v \<and> v + turnsOf (nd # rest) \<le> mt))"
  proof (cases "?c = start")
    case True
    have "turnsOf rest \<le> turnsOf (nd # rest)" by (rule turnsOf_Cons_le)
    then show ?thesis using True v'(2) by simp
  next
    case False
    then show ?thesis using v' by blast
  qed
  from Cons.IH[OF walk endc rest this] show ?case .
qed

lemma searchLoop_complete:
  "searchInv board goal start mt vis q \<Longrightarrow> searchLoop board goal mt vis q = None \<Longrightarrow>
   legalRoute board start goal mt ds \<Longrightarrow> False"
proof (induction board goal mt vis q rule: searchLoop.induct)
  case (1 board goal maxTurns vis)
  have gf: "\<forall>d. visAt vis (pos_r goal) (pos_c goal) d = None"
    using "1.prems"(1) by (simp add: searchInv_def)
  have sc: "startClosed board goal vis start"
    using "1.prems"(1) by (simp add: searchInv_def)
  have cl: "\<forall>r c d t. visAt vis r c d = Some t \<and> Pos r c \<noteq> start \<longrightarrow>
               stepClosed board goal maxTurns vis (Pos r c) d t"
    using "1.prems"(1) by (simp add: searchInv_def)
  have r: "walkOk board goal start ds" "endOf start ds = goal" "ds \<noteq> []" "turnsOf ds \<le> maxTurns"
    using "1.prems"(3) by (simp_all add: legalRoute_def)
  show ?case
    using no_route_when_closed[OF gf sc cl r(1) r(2) r(3), of 0] r(4) by simp
next
  case (2 board goal maxTurns vis node q)
  obtain v1 q1 e1 where ex: "expandDirs board goal maxTurns node [0, 1, 2, 3] vis q = (v1, q1, e1)"
    by (metis prod_cases3)
  have e1: "e1 = None" using "2.prems"(2) ex by (cases e1) simp_all
  have loop: "searchLoop board goal maxTurns v1 q1 = None" using "2.prems"(2) ex e1 by simp
  have inv: "searchInv board goal start maxTurns v1 q1"
    using searchInv_step[OF "2.prems"(1) ex[unfolded e1]] .
  show ?case using "2.IH"[OF ex[symmetric] refl e1 inv loop "2.prems"(3)] .
qed

section \<open>Path finder: the initial state and the two directions\<close>

lemma visitedIn_visitedInit: "visitedIn visitedInit r c d = (inBounds r c \<and> d < 4)"
  by (auto simp: visitedIn_def visitedInit_def inBounds_def)

lemma visAt_visitedInit: "visAt visitedInit r c d = None"
proof (cases "visitedIn visitedInit r c d")
  case False
  then show ?thesis by (simp add: visAt_def)
next
  case True
  then have "nat r < 11" "nat c < 18" "d < 4"
    by (auto simp: visitedIn_visitedInit inBounds_def)
  then have "replicate 11 (replicate 18 (replicate 4 (None::nat option))) ! nat r ! nat c ! d = None"
    by simp
  then show ?thesis using True by (simp add: visAt_def visitedInit_def)
qed

lemma tableOk_seedVisited: "tableOk (seedVisited start)"
  by (simp add: seedVisited_def tableOk_def visitedIn_visitedInit)

lemma visAt_seedVisited:
  "visAt (seedVisited start) r c d = Some t \<Longrightarrow> Pos r c = start"
  by (cases start) (auto simp: seedVisited_def visAt_visitedSet visAt_visitedInit split: if_splits)

lemma searchInv_init:
  assumes "start \<noteq> goal"
  shows "searchInv board goal start mt (seedVisited start) (seedNodes start)"
proof -
  have gf: "\<forall>d. visAt (seedVisited start) (pos_r goal) (pos_c goal) d = None"
  proof
    fix d
    show "visAt (seedVisited start) (pos_r goal) (pos_c goal) d = None"
      using visAt_seedVisited[of start "pos_r goal" "pos_c goal" d] assms
      by (cases "visAt (seedVisited start) (pos_r goal) (pos_c goal) d") auto
  qed
  have seeds: "\<forall>n \<in> set (seedNodes start). node_parent n = None \<longrightarrow> nodePos n = start \<and> node_t n = 0"
    by (auto simp: seedNodes_def nodePos_def)
  have ex: "\<exists>n \<in> set (seedNodes start). node_parent n = None"
    by (auto simp: seedNodes_def)
  show ?thesis
    unfolding searchInv_def
    using tableOk_seedVisited gf seeds ex visAt_seedVisited by blast
qed

lemma findPath_complete:
  assumes "inBounds (pos_r start) (pos_c start)" and "start \<noteq> goal"
    and "legalRoute board start goal mt ds"
  shows "\<exists>path. findPathLimitedTurns board start goal mt = Inr (Some path)"
proof (cases "searchLoop board goal mt (seedVisited start) (seedNodes start)")
  case None
  from searchLoop_complete[OF searchInv_init[OF assms(2)] None assms(3)] show ?thesis ..
next
  case (Some e)
  then show ?thesis using assms(1) by (simp add: findPathLimitedTurns_def)
qed

lemma findPath_iff_route:
  assumes "inBounds (pos_r start) (pos_c start)" and "start \<noteq> goal"
  shows "(\<exists>path. findPathLimitedTurns board start goal mt = Inr (Some path)) \<longleftrightarrow>
         (\<exists>ds. legalRoute board start goal mt ds)"
  using findPath_sound findPath_complete[OF assms] by blast

section \<open>Claims about the collapse engine\<close>

text \<open>Boards with a few tiles, for the concrete instances below.\<close>

fun placeTiles :: "board \<Rightarrow> (int \<times> int \<times> nat) list \<Rightarrow> board" where
  "placeTiles b [] = b"
| "placeTiles b ((r, c, v) # ts) = placeTiles (setCell b r c (Some v)) ts"

definition columnBoard :: board where
  "columnBoard = placeTiles emptyBoard [(1, 3, 5), (2, 3, 7), (3, 3, 6), (4, 3, 8), (5, 3, 7)]"

text \<open>
  C10.  Frame of \<open>applyLevel\<close>: the column-shifting levels 2, 3 and 6 leave every cell outside
  the columns of \<open>a\<close> and \<open>b\<close> as it was, the row-shifting levels 4, 5 and 7 every cell outside
  the rows of \<open>a\<close> and \<open>b\<close>, and level 1 every cell but \<open>a\<close> and \<open>b\<close>; the shape of the board
  never changes.
\<close>

theorem applyLevel_frame:
  "(lvl \<in> {2, 3, 6} \<and> c' \<noteq> pos_c a \<and> c' \<noteq> pos_c b \<longrightarrow>
      cellAt (applyLevel board lvl a b) r' c' = cellAt board r' c') \<and>
   (lvl \<in> {4, 5, 7} \<and> r' \<noteq> pos_r a \<and> r' \<noteq> pos_r b \<longrightarrow>
      cellAt (applyLevel board lvl a b) r' c' = cellAt board r' c') \<and>
   (lvl = 1 \<and> Pos r' c' \<noteq> a \<and> Pos r' c' \<noteq> b \<longrightarrow>
      cellAt (applyLevel board lvl a b) r' c' = cellAt board r' c') \<and>
   map length (applyLevel board lvl a b) = map length board"
proof (intro conjI impI)
  assume "lvl \<in> {2, 3, 6} \<and> c' \<noteq> pos_c a \<and> c' \<noteq> pos_c b"
  then show "cellAt (applyLevel board lvl a b) r' c' = cellAt board r' c'"
    by (intro applyLevel_frame_col) auto
next
  assume "lvl \<in> {4, 5, 7} \<and> r' \<noteq> pos_r a \<and> r' \<noteq> pos_r b"
  then show "cellAt (applyLevel board lvl a b) r' c' = cellAt board r' c'"
    by (intro applyLevel_frame_row) auto
next
  assume "lvl = 1 \<and> Pos r' c' \<noteq> a \<and> Pos r' c' \<noteq> b"
  then show "cellAt (applyLevel board lvl a b) r' c' = cellAt board r' c'"
    by (intro applyLevel_frame_cell) auto
next
  show "map length (applyLevel board lvl a b) = map length board" by simp
qed

theorem applyLevel_frame_witness:
  "cellAt (applyLevel columnBoard 3 (Pos 2 3) (Pos 5 3)) 4 9 = cellAt columnBoard 4 9 \<and>
   cellAt (applyLevel columnBoard 5 (Pos 2 3) (Pos 5 3)) 4 3 = Some 8 \<and>
   cellAt (applyLevel columnBoard 1 (Pos 2 3) (Pos 5 3)) 4 3 = Some 8"
proof -
  have c: "cellAt columnBoard 4 3 = Some 8"
    by (simp add: columnBoard_def emptyBoard_def cellAt_setCell inRange_def)
  show ?thesis
    using applyLevel_frame [of 3 9 "Pos 2 3" "Pos 5 3" columnBoard 4]
      applyLevel_frame [of 5 3 "Pos 2 3" "Pos 5 3" columnBoard 4]
      applyLevel_frame [of 1 3 "Pos 2 3" "Pos 5 3" columnBoard 4] c
    by simp
qed


lemma level_border:
  assumes "interior p" and "isBorder r c"
  shows "cellAt (levelFn lvl b p) r c = cellAt b r c"
proof -
  have rc: "c \<noteq> pos_c p \<or> r < pos_r p \<and> r \<le> 0 \<or> r > pos_r p \<and> r \<ge> ROWS - 1"
    and cr: "r \<noteq> pos_r p \<or> c < pos_c p \<and> c \<le> 0 \<or> c > pos_c p \<and> c \<ge> COLS - 1"
    using assms by (auto simp: interior_def isBorder_def inBounds_def)
  have "cellAt (level1 b p) r c = cellAt b r c" using rc cr by (intro level1_frame) auto
  moreover have "cellAt (level2 b p) r c = cellAt b r c" using rc by (intro level2_frame) auto
  moreover have "cellAt (level3 b p) r c = cellAt b r c" using rc by (intro level3_frame) auto
  moreover have "cellAt (level4 b p) r c = cellAt b r c" using cr by (intro level4_frame) auto
  moreover have "cellAt (level5 b p) r c = cellAt b r c" using cr by (intro level5_frame) auto
  moreover have "cellAt (level6 b p) r c = cellAt b r c" using rc by (intro level6_frame) auto
  moreover have "cellAt (level7 b p) r c = cellAt b r c" using cr by (intro level7_frame) auto
  ultimately show ?thesis by (simp add: levelFn_def)
qed

lemma applyLevel_two_steps:
  "applyLevel board lvl a b = levelFn lvl (levelFn lvl board a) b \<or>
   applyLevel board lvl a b = levelFn lvl (levelFn lvl board b) a"
  by (simp add: applyLevel_def levelFn_def Let_def)

lemma applyLevel_border:
  assumes "border_null board" "interior a" "interior b"
  shows "border_null (applyLevel board lvl a b)"
  using assms applyLevel_two_steps[of board lvl a b]
  by (auto simp: border_null_def level_border)

lemma rerandom_outside:
  "q \<notin> set interiorCells \<Longrightarrow> cellOf (rerandomRemaining rnd board) q = cellOf board q"
  by (simp add: rerandomRemaining_unfold fill_frame' collect_board occupied_def)

lemma rerandom_border:
  assumes "border_null board"
  shows "border_null (rerandomRemaining rnd board)"
proof -
  have "cellAt (rerandomRemaining rnd board) r c = cellAt board r c" if "isBorder r c" for r c
    using rerandom_outside[of "Pos r c" rnd board] that
    by (simp add: set_interiorCells border_not_interior cellOf_def)
  then show ?thesis using assms by (simp add: border_null_def)
qed

lemma tiles_ok_emptyBoard: "tiles_ok emptyBoard"
  by (simp add: tiles_ok_def cellOf_def)

lemma tiles_ok_placeTiles:
  "tiles_ok b \<Longrightarrow> list_all (\<lambda>(r, c, v). v < TYPE_COUNT) ts \<Longrightarrow> tiles_ok (placeTiles b ts)"
proof (induction b ts rule: placeTiles.induct)
  case (1 b)
  then show ?case by simp
next
  case (2 b r c v ts)
  have "tiles_ok (setCell b r c (Some v))"
    using "2.prems" by (auto simp: tiles_ok_def cellOf_def cellAt_setCell split: option.splits)
  then show ?case using 2 by simp
qed

lemma border_null_columnBoard: "border_null columnBoard"
  by (simp add: border_null_def columnBoard_def cellAt_setCell isBorder_def)

lemma tiles_ok_columnBoard: "tiles_ok columnBoard"
  unfolding columnBoard_def by (intro tiles_ok_placeTiles tiles_ok_emptyBoard) simp

lemma applyLevel_2: "applyLevel board 2 a b =
    (if pos_r a < pos_r b then level2 (level2 board b) a else level2 (level2 board a) b)"
  by (simp add: applyLevel_def)

lemma applyLevel_3: "applyLevel board 3 a b =
    (if pos_r a < pos_r b then level3 (level3 board a) b else level3 (level3 board b) a)"
  by (simp add: applyLevel_def)

lemma applyLevel_4: "applyLevel board 4 a b =
    (if pos_c a < pos_c b then level4 (level4 board a) b else level4 (level4 board b) a)"
  by (simp add: applyLevel_def)

lemma applyLevel_5: "applyLevel board 5 a b =
    (if pos_c a < pos_c b then level5 (level5 board b) a else level5 (level5 board a) b)"
  by (simp add: applyLevel_def)

lemma applyLevel_6: "applyLevel board 6 a b =
    (if (5 < pos_r a \<and> 5 < pos_r b) = (pos_r a < pos_r b)
     then level6 (level6 board a) b else level6 (level6 board b) a)"
  by (simp add: applyLevel_def)

lemma applyLevel_7: "applyLevel board 7 a b =
    (if (midC < pos_c a \<and> midC < pos_c b) = (pos_c a < pos_c b)
     then level7 (level7 board a) b else level7 (level7 board b) a)"
  by (simp add: applyLevel_def Let_def)

lemma applyLevel_other: "lvl \<notin> {2, 3, 4, 5, 6, 7} \<Longrightarrow> applyLevel board lvl a b = level1 (level1 board a) b"
  by (simp add: applyLevel_def)

text \<open>
  C3, as the code has it.  \<open>applyLevel\<close> runs the level's single-position collapse on one
  of the two positions and then on the other.  Level 1 (and any level outside 2..7) takes
  \<open>a\<close> then \<open>b\<close>.  Level 2 and level 5 take the position with the larger row, resp. column,
  first; level 3 and level 4 the one with the smaller row, resp. column, first; level 6
  (level 7) takes the smaller row (column) first when both positions lie beyond the centre
  row 5 (centre column 8), and the larger one first otherwise.
\<close>

theorem applyLevel_order:
  "\<exists>p q. ((p = a \<and> q = b) \<or> (p = b \<and> q = a)) \<and>
     applyLevel board lvl a b = levelFn lvl (levelFn lvl board p) q \<and>
     (lvl = 2 \<longrightarrow> pos_r q \<le> pos_r p) \<and>
     (lvl = 3 \<longrightarrow> pos_r p \<le> pos_r q) \<and>
     (lvl = 4 \<longrightarrow> pos_c p \<le> pos_c q) \<and>
     (lvl = 5 \<longrightarrow> pos_c q \<le> pos_c p) \<and>
     (lvl = 6 \<longrightarrow> (if 5 < pos_r a \<and> 5 < pos_r b then pos_r p \<le> pos_r q else pos_r q \<le> pos_r p)) \<and>
     (lvl = 7 \<longrightarrow> (if midC < pos_c a \<and> midC < pos_c b then pos_c p \<le> pos_c q else pos_c q \<le> pos_c p)) \<and>
     (lvl \<notin> {2, 3, 4, 5, 6, 7} \<longrightarrow> p = a \<and> q = b)"
proof -
  consider "lvl = 2" | "lvl = 3" | "lvl = 4" | "lvl = 5" | "lvl = 6" | "lvl = 7"
    | "lvl \<notin> {2, 3, 4, 5, 6, 7}" by auto
  then show ?thesis
  proof cases
    case 1
    show ?thesis
    proof (cases "pos_r a < pos_r b")
      case True
      then show ?thesis
        by (intro exI[of _ b] exI[of _ a]) (simp add: 1 applyLevel_2 levelFn_def)
    next
      case False
      then show ?thesis
        by (intro exI[of _ a] exI[of _ b]) (simp add: 1 applyLevel_2 levelFn_def)
    qed
  next
    case 2
    show ?thesis
    proof (cases "pos_r a < pos_r b")
      case True
      then show ?thesis
        by (intro exI[of _ a] exI[of _ b]) (simp add: 2 applyLevel_3 levelFn_def)
    next
      case False
      then show ?thesis
        by (intro exI[of _ b] exI[of _ a]) (simp add: 2 applyLevel_3 levelFn_def)
    qed
  next
    case 3
    show ?thesis
    proof (cases "pos_c a < pos_c b")
      case True
      then show ?thesis
        by (intro exI[of _ a] exI[of _ b]) (simp add: 3 applyLevel_4 levelFn_def)
    next
      case False
      then show ?thesis
        by (intro exI[of _ b] exI[of _ a]) (simp add: 3 applyLevel_4 levelFn_def)
    qed
  next
    case 4
    show ?thesis
    proof (cases "pos_c a < pos_c b")
      case True
      then show ?thesis
        by (intro exI[of _ b] exI[of _ a]) (simp add: 4 applyLevel_5 levelFn_def)
    next
      case False
      then show ?thesis
        by (intro exI[of _ a] exI[of _ b]) (simp add: 4 applyLevel_5 levelFn_def)
    qed
  next
    case 5
    show ?thesis
    proof (cases "(5 < pos_r a \<and> 5 < pos_r b) = (pos_r a < pos_r b)")
      case True
      then show ?thesis
        by (intro exI[of _ a] exI[of _ b]) (auto simp add: 5 applyLevel_6 levelFn_def)
    next
      case False
      then show ?thesis
        by (intro exI[of _ b] exI[of _ a]) (auto simp add: 5 applyLevel_6 levelFn_def)
    qed
  next
    case 6
    show ?thesis
    proof (cases "(midC < pos_c a \<and> midC < pos_c b) = (pos_c a < pos_c b)")
      case True
      then show ?thesis
        by (intro exI[of _ a] exI[of _ b]) (auto simp add: 6 applyLevel_7 levelFn_def)
    next
      case False
      then show ?thesis
        by (intro exI[of _ b] exI[of _ a]) (auto simp add: 6 applyLevel_7 levelFn_def)
    qed
  next
    case 7
    then have "lvl \<noteq> 2" "lvl \<noteq> 3" "lvl \<noteq> 4" "lvl \<noteq> 5" "lvl \<noteq> 6" "lvl \<noteq> 7" by auto
    then show ?thesis
      using 7 by (intro exI[of _ a] exI[of _ b]) (simp add: applyLevel_other levelFn_def)
  qed
qed

theorem applyLevel_order_witness:
  "applyLevel columnBoard 3 (Pos 2 3) (Pos 5 3) = level3 (level3 columnBoard (Pos 2 3)) (Pos 5 3)"
  using applyLevel_order [of "Pos 2 3" "Pos 5 3" columnBoard 3]
  by (auto simp: levelFn_def)

text \<open>
  C3, as the specification words it, fails for level 3: of the two positions of the same
  column, row 5 is the farther from the top row that the upward policy is named after, yet
  the code collapses row 2 first, and collapsing row 5 first gives another board.
\<close>

theorem applyLevel_farther_first_counterexample:
  "destinationDistance_spec 3 (Pos 2 3) < destinationDistance_spec 3 (Pos 5 3) \<and>
   applyLevel columnBoard 3 (Pos 2 3) (Pos 5 3) = level3 (level3 columnBoard (Pos 2 3)) (Pos 5 3) \<and>
   applyLevel columnBoard 3 (Pos 2 3) (Pos 5 3) \<noteq> level3 (level3 columnBoard (Pos 5 3)) (Pos 2 3)"
  by code_simp

text \<open>
  C6.  The border is empty on every generated board, stays empty under \<open>applyLevel\<close> at
  any level when the two removed positions are interior cells, and stays empty under the
  reshuffle.
\<close>

theorem border_stays_null:
  "border_null (makeInitialBoard rnd) \<and>
   (border_null board \<and> interior a \<and> interior b \<longrightarrow> border_null (applyLevel board lvl a b)) \<and>
   (border_null board \<longrightarrow> border_null (rerandomRemaining rnd board))"
  using border_null_makeInitialBoard applyLevel_border rerandom_border by blast

theorem border_stays_null_witness:
  "border_null columnBoard \<and> interior (Pos 2 3) \<and> interior (Pos 5 3) \<and>
   border_null (applyLevel columnBoard 6 (Pos 2 3) (Pos 5 3)) \<and>
   border_null (rerandomRemaining (\<lambda>i. 0) columnBoard)"
  using border_stays_null [of "\<lambda>i. 0" columnBoard "Pos 2 3" "Pos 5 3" 6] border_null_columnBoard
  by (simp add: interior_def)

text \<open>
  C7.  On a board whose interior tiles are tile types, \<open>rerandomRemaining\<close> keeps the
  multiset of interior tile values, keeps every cell empty that was empty and occupied that
  was occupied, and does not touch a cell outside the interior; so the number of interior
  tiles is the same.
\<close>

theorem rerandomRemaining_preserves:
  assumes "tiles_ok board"
  shows "mset (tileValues (rerandomRemaining rnd board) interiorCells) = mset (tileValues board interiorCells) \<and>
         length (tileValues (rerandomRemaining rnd board) interiorCells) = length (tileValues board interiorCells) \<and>
         (\<forall>q. cellOf (rerandomRemaining rnd board) q = None \<longleftrightarrow> cellOf board q = None) \<and>
         (\<forall>q. \<not> interior q \<longrightarrow> cellOf (rerandomRemaining rnd board) q = cellOf board q)"
proof -
  have m: "mset (tileValues (rerandomRemaining rnd board) interiorCells) = mset (tileValues board interiorCells)"
    using rerandom_tileValues[OF assms] rerandom_bag[OF assms] by simp
  then have "length (tileValues (rerandomRemaining rnd board) interiorCells) = length (tileValues board interiorCells)"
    by (metis size_mset)
  moreover have "\<forall>q. \<not> interior q \<longrightarrow> cellOf (rerandomRemaining rnd board) q = cellOf board q"
    by (simp add: rerandom_outside set_interiorCells)
  ultimately show ?thesis
    using m rerandom_cells(1)[OF assms] by blast
qed

theorem rerandomRemaining_preserves_witness:
  "tiles_ok columnBoard \<and>
   tileValues columnBoard interiorCells = [5, 7, 6, 8, 7] \<and>
   tileValues (rerandomRemaining (\<lambda>i. 0) columnBoard) interiorCells = [6, 7, 7, 8, 5] \<and>
   mset (tileValues (rerandomRemaining (\<lambda>i. 0) columnBoard) interiorCells) = mset (tileValues columnBoard interiorCells)"
proof -
  have a: "tileValues columnBoard interiorCells = [5, 7, 6, 8, 7]" by code_simp
  have b: "tileValues (rerandomRemaining (\<lambda>i. 0) columnBoard) interiorCells = [6, 7, 7, 8, 5]" by code_simp
  show ?thesis
    using rerandomRemaining_preserves [OF tiles_ok_columnBoard, of "\<lambda>i. 0"] a b tiles_ok_columnBoard
    by simp
qed


section \<open>Claims about the path finder\<close>

text \<open>
  Boards for the instances: a tile at (5, 6) whose only free neighbour (5, 5) is a dead end; two
  equal tiles at (2, 2) and (2, 4) joined only by the corridor below them; two equal tiles
  side by side.
\<close>

definition pocketBoard :: board where
  "pocketBoard = placeTiles emptyBoard
     [(4, 5, 3), (4, 6, 4), (5, 4, 5), (5, 6, 1), (5, 7, 6), (6, 5, 7), (6, 6, 8)]"

definition corridorBoard :: board where
  "corridorBoard = placeTiles emptyBoard
     [(1, 2, 5), (2, 1, 8), (2, 2, 4), (2, 3, 6), (2, 4, 4), (3, 1, 9), (3, 5, 10), (4, 2, 7), (4, 3, 11)]"

definition twoTiles :: board where
  "twoTiles = placeTiles emptyBoard [(1, 1, 4), (1, 2, 4)]"

text \<open>
  C1, as the code has it.  On a board of the grid's shape, for a start inside the grid and a
  goal that is another position, \<open>findPathLimitedTurns\<close> with \<open>maxTurns = 2\<close> returns a
  path exactly when a legal connection with at most two turns exists.
\<close>

theorem findPath_two_turns_iff:
  assumes "wf_board board" and "inBounds (pos_r start) (pos_c start)" and "start \<noteq> goal"
  shows "(\<exists>path. findPathLimitedTurns board start goal 2 = Inr (Some path)) \<longleftrightarrow>
         (\<exists>ds. legalRoute board start goal 2 ds)"
  using assms(2,3) by (rule findPath_iff_route)

theorem findPath_two_turns_iff_witness:
  "wf_board corridorBoard \<and> inBounds 2 2 \<and> Pos 2 2 \<noteq> Pos 2 4 \<and>
   findPathLimitedTurns corridorBoard (Pos 2 2) (Pos 2 4) 2 =
     Inr (Some [Pos 2 2, Pos 2 2, Pos 3 2, Pos 3 4, Pos 2 4]) \<and>
   legalRoute corridorBoard (Pos 2 2) (Pos 2 4) 2 [1, 3, 3, 0] \<and>
   (\<exists>ds. legalRoute corridorBoard (Pos 2 2) (Pos 2 4) 2 ds)"
proof -
  have w: "wf_board corridorBoard" by code_simp
  have i: "inBounds (pos_r (Pos 2 2)) (pos_c (Pos 2 2))" by (simp add: inBounds_def)
  have n: "Pos 2 2 \<noteq> Pos 2 4" by simp
  have p: "findPathLimitedTurns corridorBoard (Pos 2 2) (Pos 2 4) 2 =
     Inr (Some [Pos 2 2, Pos 2 2, Pos 3 2, Pos 3 4, Pos 2 4])" by code_simp
  have l: "legalRoute corridorBoard (Pos 2 2) (Pos 2 4) 2 [1, 3, 3, 0]" by code_simp
  show ?thesis
    using findPath_two_turns_iff [OF w i n] w i p l by simp
qed

text \<open>
  C1, for every pair of positions as the specification words it, fails when start and goal
  are the same cell (as when a client submits one cell twice): the walk one step left and back
  is a legal connection with one turn, and the search returns \<open>null\<close>.
\<close>

theorem findPath_same_cell_counterexample:
  "legalRoute pocketBoard (Pos 5 6) (Pos 5 6) 2 [2, 3] \<and>
   findPathLimitedTurns pocketBoard (Pos 5 6) (Pos 5 6) 2 = Inr None"
  by code_simp

text \<open>
  C2.  The returned list of corner points repeats the start whenever the first segment does
  not go up: the walk back compares the direction of the first real node with the direction
  0 of the seed node.  A connection with two turns comes back as five points, a straight one
  as three, also when \<open>maxTurns\<close> is 0.
\<close>

theorem findPath_repeats_start:
  "findPathLimitedTurns corridorBoard (Pos 2 2) (Pos 2 4) 2 =
     Inr (Some [Pos 2 2, Pos 2 2, Pos 3 2, Pos 3 4, Pos 2 4]) \<and>
   findPathLimitedTurns twoTiles (Pos 1 1) (Pos 1 2) 2 = Inr (Some [Pos 1 1, Pos 1 1, Pos 1 2]) \<and>
   findPathLimitedTurns twoTiles (Pos 1 1) (Pos 1 2) 0 = Inr (Some [Pos 1 1, Pos 1 1, Pos 1 2])"
  by code_simp

section \<open>Move detection: hasAnyMove\<close>

definition positionsByType :: "board \<Rightarrow> nat \<Rightarrow> pos list" where
  "positionsByType board t = filter (\<lambda>p. cellOf board p = Some t) interiorCells"

definition hasPath :: "board \<Rightarrow> pos \<Rightarrow> pos \<Rightarrow> bool" where
  "hasPath board p q = (case findPathLimitedTurns board p q 2 of Inr (Some path) \<Rightarrow> True | _ \<Rightarrow> False)"

fun anyPairConnected :: "board \<Rightarrow> pos list \<Rightarrow> bool" where
  "anyPairConnected board [] = False"
| "anyPairConnected board (p # pts) = (list_ex (hasPath board p) pts \<or> anyPairConnected board pts)"

text \<open>
  \<open>positionsByType[v].push\<close> throws a \<open>TypeError\<close> when an interior cell holds a value that is
  not below \<open>TYPE_COUNT\<close>.
\<close>

definition hasAnyMove :: "board \<Rightarrow> js_error + bool" where
  "hasAnyMove board =
     (if \<not> tiles_ok board then Inl TypeError
      else Inr (list_ex (\<lambda>t. anyPairConnected board (positionsByType board t)) [0 ..< TYPE_COUNT]))"

section \<open>Rooms and sessions (server-io.js)\<close>

text \<open>
  The three registries of the source are JavaScript \<open>Map\<close>s, modelled as association lists
  in insertion order.  Pending \<open>setTimeout\<close> callbacks are kept under their handle with the
  values their closure captured: room id, client id and \<open>wasHost\<close>.  Events record what
  \<open>broadcastRoom\<close> sends to a room (the \<open>scores\<close> field of the payloads is left out); the
  acknowledgment is the value passed to \<open>ack\<close>.
\<close>

datatype room_state = lobby | in_progress | ended

record player =
  p_id :: string
  p_name :: string
  p_score :: int
  p_connected :: bool
  p_socketId :: "string option"

record room =
  room_id :: string
  room_hostId :: string
  room_players :: "(string \<times> player) list"
  room_disconnectTimers :: "(string \<times> nat) list"
  room_state :: room_state
  room_board :: "board option"
  room_level :: int

record server =
  rooms :: "(string \<times> room) list"
  clientToRoom :: "(string \<times> string) list"
  globalLeaderboard :: "(string \<times> int) list"
  timers :: "(nat \<times> string \<times> string \<times> bool) list"
  nextTimer :: nat

datatype event =
    RoomPlayerLeft string string
  | RoomPlayerJoined string string string
  | RoomPlayerRejoined string string
  | RoomPlayerDisconnected string string
  | RoomClosed string
  | GameMatched string pos pos "pos list" board
  | GameEnded string board int
  | GameShuffled string board

datatype ack = AckOk | AckFail string

text \<open>JavaScript's \<open>%\<close> on integers takes the sign of the dividend.\<close>

definition jsRem :: "int \<Rightarrow> int \<Rightarrow> int" where
  "jsRem a b = (if a \<ge> 0 then a mod \<bar>b\<bar> else - ((- a) mod \<bar>b\<bar>))"

text \<open>
  The \<open>game:move\<close> listener.  socket.io calls it with the arguments of the client's emit
  as they arrive.  Its parameter list destructures the first argument into \<open>roomId\<close>, \<open>a\<close>
  and \<open>b\<close>: \<open>undefined\<close> or \<open>null\<close> there, modelled as \<open>None\<close>, throws a \<open>TypeError\<close>
  before the body runs; of any other value the three fields are read.  \<open>roomId\<close> is \<open>None\<close> when it is not a
  string, which is the key of no room.  \<open>a\<close> or \<open>b\<close> is \<open>None\<close> when it is missing or falsy,
  and otherwise carries integer coordinates.  Every path of the body ends in
  \<open>return ack && ack(reply)\<close>: a falsy \<open>ack\<close> sends nothing, a function receives the reply,
  and any other truthy value throws a \<open>TypeError\<close>.  A throw leaves the handler with the
  state as mutated so far.
\<close>

datatype ack_arg = AckMissing | AckFunction | AckNotCallable

record move_payload =
  mp_roomId :: "string option"
  mp_a :: "pos option"
  mp_b :: "pos option"

definition passAck ::
  "ack_arg \<Rightarrow> server \<Rightarrow> event list \<Rightarrow> ack \<Rightarrow> (js_error \<times> server) + (server \<times> event list \<times> ack option)"
where
  "passAck ackArg srv evs reply =
     (case ackArg of
        AckMissing \<Rightarrow> Inr (srv, evs, None)
      | AckFunction \<Rightarrow> Inr (srv, evs, Some reply)
      | AckNotCallable \<Rightarrow> Inl (TypeError, srv))"

definition gameMove ::
  "server \<Rightarrow> string \<Rightarrow> move_payload option \<Rightarrow> ack_arg \<Rightarrow> (nat \<Rightarrow> nat) \<Rightarrow>
   (js_error \<times> server) + (server \<times> event list \<times> ack option)"
where
  "gameMove srv clientId payload ackArg rnd =
     (case payload of
        None \<Rightarrow> Inl (TypeError, srv)
      | Some req \<Rightarrow>
     (case mp_roomId req of
        None \<Rightarrow> passAck ackArg srv [] (AckFail ''Room not found'')
      | Some roomId \<Rightarrow>
     (case map_of (rooms srv) roomId of
        None \<Rightarrow> passAck ackArg srv [] (AckFail ''Room not found'')
      | Some room \<Rightarrow>
          if room_state room \<noteq> in_progress then passAck ackArg srv [] (AckFail ''Game not in progress'')
          else if mp_a req = None \<or> mp_b req = None then passAck ackArg srv [] (AckFail ''Invalid coords'')
          else
            (case room_board room of
               None \<Rightarrow> Inl (TypeError, srv)
             | Some brd \<Rightarrow>
                 if \<not> boardCleared brd then
                   (let a = the (mp_a req); b = the (mp_b req);
                        v1 = cellOf brd a; v2 = cellOf brd b in
                    if v1 = None \<or> v2 = None \<or> v1 \<noteq> v2 then passAck ackArg srv [] (AckFail ''Not matchable'')
                    else
                      (case findPathLimitedTurns brd a b 2 of
                         Inl e \<Rightarrow> Inl (e, srv)
                       | Inr None \<Rightarrow> passAck ackArg srv [] (AckFail ''No path'')
                       | Inr (Some path) \<Rightarrow>
                           (let brd1 = applyLevel brd (if room_level room = 0 then 1 else room_level room) a b;
                                players1 =
                                  (case map_of (room_players room) clientId of
                                     None \<Rightarrow> room_players room
                                   | Some pl \<Rightarrow> AList.update clientId (pl\<lparr>p_score := p_score pl + 10\<rparr>) (room_players room));
                                board1 =
                                  (case map_of (room_players room) clientId of
                                     None \<Rightarrow> globalLeaderboard srv
                                   | Some pl \<Rightarrow>
                                       AList.update (p_name pl)
                                         ((case map_of (globalLeaderboard srv) (p_name pl) of
                                             None \<Rightarrow> 0 | Some prev \<Rightarrow> prev) + 10)
                                         (globalLeaderboard srv));
                                room1 = room\<lparr>room_board := Some brd1, room_players := players1\<rparr>;
                                srv1 = srv\<lparr>rooms := AList.update roomId room1 (rooms srv), globalLeaderboard := board1\<rparr>;
                                matched = GameMatched (room_id room) a b path brd1
                            in if boardCleared brd1 then
                                 (let lvl = jsRem (room_level room) 7 + 1;
                                      room2 = room1\<lparr>room_state := ended, room_level := lvl\<rparr>
                                  in passAck ackArg (srv1\<lparr>rooms := AList.update roomId room2 (rooms srv)\<rparr>)
                                          [matched, GameEnded (room_id room) brd1 lvl] AckOk)
                               else
                                 (case hasAnyMove brd1 of
                                    Inl e \<Rightarrow> Inl (e, srv1)
                                  | Inr True \<Rightarrow> passAck ackArg srv1 [matched] AckOk
                                  | Inr False \<Rightarrow>
                                      (let brd2 = rerandomRemaining rnd brd1;
                                           room2 = room1\<lparr>room_board := Some brd2\<rparr>
                                       in passAck ackArg (srv1\<lparr>rooms := AList.update roomId room2 (rooms srv)\<rparr>)
                                               [matched, GameShuffled (room_id room) brd2] AckOk)))))
                 else passAck ackArg srv [] (AckFail ''Board already cleared'')))))"

text \<open>
  The \<open>user:joinRoom\<close> handler of the connection with socket id \<open>sock\<close> and client id
  \<open>clientId\<close>.  A string is truthy when it is not empty; \<open>name\<close> absent is \<open>None\<close>.
\<close>

definition truthy :: "string option \<Rightarrow> bool" where
  "truthy s = (case s of None \<Rightarrow> False | Some x \<Rightarrow> x \<noteq> [])"

definition leavePrevious :: "server \<Rightarrow> string \<Rightarrow> string \<Rightarrow> server \<times> event list" where
  "leavePrevious srv clientId roomId =
     (let prevId = map_of (clientToRoom srv) clientId in
      if truthy prevId \<and> prevId \<noteq> Some roomId then
        (let left =
               (case map_of (rooms srv) (the prevId) of
                  None \<Rightarrow> (rooms srv, [])
                | Some prev \<Rightarrow>
                    if map_of (room_players prev) clientId \<noteq> None then
                      (AList.update (the prevId)
                         (prev\<lparr>room_players := AList.delete clientId (room_players prev),
                               room_disconnectTimers := AList.delete clientId (room_disconnectTimers prev)\<rparr>)
                         (rooms srv),
                       [RoomPlayerLeft (room_id prev) clientId])
                    else (rooms srv, []))
         in (srv\<lparr>rooms := fst left, clientToRoom := AList.delete clientId (clientToRoom srv)\<rparr>, snd left))
      else (srv, []))"




section \<open>A room in play, for the concrete instances\<close>

text \<open>
  A board with one matching pair in the corner and a block of sixteen tiles whose only pairs,
  the tiles 1 and 2 in its middle, are walled in; the same board after the corner pair is
  removed; and a list of random draws.
\<close>

definition wallBoard :: board where
  "wallBoard = placeTiles emptyBoard
     [(1, 1, 0), (1, 2, 0),
      (4, 4, 3), (4, 5, 4), (4, 6, 5), (4, 7, 6),
      (5, 4, 7), (5, 5, 1), (5, 6, 2), (5, 7, 8),
      (6, 4, 9), (6, 5, 2), (6, 6, 1), (6, 7, 10),
      (7, 4, 11), (7, 5, 12), (7, 6, 13), (7, 7, 14)]"

definition wallBoardAfter :: board where
  "wallBoardAfter = placeTiles emptyBoard
     [(4, 4, 3), (4, 5, 4), (4, 6, 5), (4, 7, 6),
      (5, 4, 7), (5, 5, 1), (5, 6, 2), (5, 7, 8),
      (6, 4, 9), (6, 5, 2), (6, 6, 1), (6, 7, 10),
      (7, 4, 11), (7, 5, 12), (7, 6, 13), (7, 7, 14)]"

definition drawTable :: "nat \<Rightarrow> nat" where
  "drawTable i = [0, 0, 2, 3, 1, 0, 2, 3, 1, 3, 1, 11, 12, 13, 14, 15] ! i"

definition exPlayer :: player where
  "exPlayer = \<lparr>p_id = ''client-0001'', p_name = ''Ann'', p_score = 20, p_connected = True,
               p_socketId = Some ''s1''\<rparr>"

definition exRoom :: room where
  "exRoom = \<lparr>room_id = ''ROOM'', room_hostId = ''client-0001'',
             room_players = [(''client-0001'', exPlayer)], room_disconnectTimers = [],
             room_state = in_progress, room_board = Some wallBoard, room_level = 1\<rparr>"

definition exServer :: server where
  "exServer = \<lparr>rooms = [(''ROOM'', exRoom)], clientToRoom = [(''client-0001'', ''ROOM'')],
               globalLeaderboard = [(''Ann'', 20)], timers = [], nextTimer = 0\<rparr>"


section \<open>Claims about the move transaction\<close>








lemma hasAnyMove_tiles_ok: "hasAnyMove brd = Inr x \<Longrightarrow> tiles_ok brd"
  by (auto simp: hasAnyMove_def split: if_splits)

text \<open>
  C5, as the code has it.  After a successful move that does not clear the board, when
  \<open>hasAnyMove\<close> is false on the collapsed board, the board is reshuffled once, the room
  keeps the reshuffled board, and the \<open>game:shuffled\<close> broadcast carries it; the reshuffle
  keeps the tiles and the occupied cells.  State and level stay as they were.
\<close>

theorem gameMove_reshuffles_once:
  assumes "map_of (rooms srv) roomId = Some room"
    and "room_state room = in_progress"
    and "room_board room = Some brd"
    and "\<not> boardCleared brd"
    and "cellOf brd a \<noteq> None" and "cellOf brd a = cellOf brd b"
    and "findPathLimitedTurns brd a b 2 = Inr (Some path)"
    and "brd1 = applyLevel brd (if room_level room = 0 then 1 else room_level room) a b"
    and "\<not> boardCleared brd1"
    and "hasAnyMove brd1 = Inr False"
  shows "\<exists>srv' room'.
           gameMove srv clientId (Some \<lparr>mp_roomId = Some roomId, mp_a = Some a, mp_b = Some b\<rparr>) AckFunction rnd =
             Inr (srv', [GameMatched (room_id room) a b path brd1,
                         GameShuffled (room_id room) (rerandomRemaining rnd brd1)], Some AckOk) \<and>
           map_of (rooms srv') roomId = Some room' \<and>
           room_board room' = Some (rerandomRemaining rnd brd1) \<and>
           room_state room' = in_progress \<and> room_level room' = room_level room \<and>
           mset (tileValues (rerandomRemaining rnd brd1) interiorCells) = mset (tileValues brd1 interiorCells) \<and>
           (\<forall>q. cellOf (rerandomRemaining rnd brd1) q = None \<longleftrightarrow> cellOf brd1 q = None)"
proof -
  have ok: "tiles_ok brd1" using assms(10) by (rule hasAnyMove_tiles_ok)
  have m: "mset (tileValues (rerandomRemaining rnd brd1) interiorCells) = mset (tileValues brd1 interiorCells)"
    using rerandom_tileValues[OF ok] rerandom_bag[OF ok] by simp
  have c: "\<forall>q. cellOf (rerandomRemaining rnd brd1) q = None \<longleftrightarrow> cellOf brd1 q = None"
    using rerandom_cells(1)[OF ok] by blast
  have b: "cellOf brd b \<noteq> None" using assms(5,6) by simp
  show ?thesis
    using assms(1-7) assms(9,10) b m c
    unfolding gameMove_def assms(8)[symmetric]
    by (simp add: Let_def passAck_def AList.update_conv' assms(8)[symmetric])
qed

theorem gameMove_reshuffles_once_witness:
  "gameMove exServer ''client-0001''
       (Some \<lparr>mp_roomId = Some ''ROOM'', mp_a = Some (Pos 1 1), mp_b = Some (Pos 1 2)\<rparr>) AckFunction drawTable =
     Inr (exServer\<lparr>rooms := [(''ROOM'', exRoom\<lparr>room_board := Some (rerandomRemaining drawTable wallBoardAfter),
                 room_players := [(''client-0001'', exPlayer\<lparr>p_score := 30\<rparr>)]\<rparr>)],
               globalLeaderboard := [(''Ann'', 30)]\<rparr>,
        [GameMatched ''ROOM'' (Pos 1 1) (Pos 1 2) [Pos 1 1, Pos 1 1, Pos 1 2] wallBoardAfter,
         GameShuffled ''ROOM'' (rerandomRemaining drawTable wallBoardAfter)], Some AckOk) \<and>
   mset (tileValues (rerandomRemaining drawTable wallBoardAfter) interiorCells) = mset (tileValues wallBoardAfter interiorCells)"
proof -
  have r: "map_of (rooms exServer) ''ROOM'' = Some exRoom" "room_board exRoom = Some wallBoard"
    "room_state exRoom = in_progress" "room_level exRoom = 1" "room_id exRoom = ''ROOM''"
    by (simp_all add: exServer_def exRoom_def)
  have nc: "\<not> boardCleared wallBoard" by code_simp
  have c: "cellOf wallBoard (Pos 1 1) \<noteq> None" "cellOf wallBoard (Pos 1 1) = cellOf wallBoard (Pos 1 2)"
    by code_simp+
  have p: "findPathLimitedTurns wallBoard (Pos 1 1) (Pos 1 2) 2 = Inr (Some [Pos 1 1, Pos 1 1, Pos 1 2])"
    by code_simp
  have a: "wallBoardAfter = applyLevel wallBoard (if room_level exRoom = 0 then 1 else room_level exRoom) (Pos 1 1) (Pos 1 2)"
    unfolding r by code_simp
  have nc1: "\<not> boardCleared wallBoardAfter" by code_simp
  have h: "hasAnyMove wallBoardAfter = Inr False" by code_simp
  have g: "gameMove exServer ''client-0001''
       (Some \<lparr>mp_roomId = Some ''ROOM'', mp_a = Some (Pos 1 1), mp_b = Some (Pos 1 2)\<rparr>) AckFunction drawTable =
     Inr (exServer\<lparr>rooms := [(''ROOM'', exRoom\<lparr>room_board := Some wallBoardAfter,
                 room_players := [(''client-0001'', exPlayer\<lparr>p_score := 30\<rparr>)]\<rparr>)],
               globalLeaderboard := [(''Ann'', 30)]\<rparr>,
        [GameMatched ''ROOM'' (Pos 1 1) (Pos 1 2) [Pos 1 1, Pos 1 1, Pos 1 2] wallBoardAfter,
         GameShuffled ''ROOM'' wallBoardAfter], Some AckOk)"
    by code_simp
  have s: "rerandomRemaining drawTable wallBoardAfter = wallBoardAfter" by code_simp
  show ?thesis
    using gameMove_reshuffles_once [OF r(1) r(3) r(2) nc c p a nc1 h, of "''client-0001''" drawTable] g s
    by simp
qed

text \<open>
  C5, as the specification words it, fails: the code does not look at the reshuffled board.
  Here the reshuffle returns the arrangement it started from, sixteen tiles with no move.
\<close>

theorem reshuffle_may_stay_deadlocked_counterexample:
  "hasAnyMove (applyLevel wallBoard 1 (Pos 1 1) (Pos 1 2)) = Inr False \<and>
   gameMove exServer ''client-0001''
       (Some \<lparr>mp_roomId = Some ''ROOM'', mp_a = Some (Pos 1 1), mp_b = Some (Pos 1 2)\<rparr>) AckFunction drawTable =
     Inr (exServer\<lparr>rooms := [(''ROOM'', exRoom\<lparr>room_board := Some wallBoardAfter,
                 room_players := [(''client-0001'', exPlayer\<lparr>p_score := 30\<rparr>)]\<rparr>)],
               globalLeaderboard := [(''Ann'', 30)]\<rparr>,
        [GameMatched ''ROOM'' (Pos 1 1) (Pos 1 2) [Pos 1 1, Pos 1 1, Pos 1 2] wallBoardAfter,
         GameShuffled ''ROOM'' wallBoardAfter], Some AckOk) \<and>
   hasAnyMove wallBoardAfter = Inr False \<and>
   length (tileValues wallBoardAfter interiorCells) = 16"
  by code_simp

section \<open>Claims about sessions\<close>


lemma leavePrevious_room:
  assumes "leavePrevious srv clientId roomId = (srv1, ev1)"
  shows "map_of (rooms srv1) roomId = map_of (rooms srv) roomId"
    and "timers srv1 = timers srv"
proof -
  show "map_of (rooms srv1) roomId = map_of (rooms srv) roomId"
    using assms
    by (auto simp: leavePrevious_def Let_def AList.update_conv' truthy_def split: if_splits option.splits)
  show "timers srv1 = timers srv"
    using assms
    by (auto simp: leavePrevious_def Let_def split: if_splits option.splits)
qed


















end
